theory Spec2Isabelle
  imports Complex_Main "HOL-Library.Multiset" "HOL-Library.Option_ord"
begin

section \<open>Coastline processing: data model\<close>

text \<open>
  The script \<^verbatim>\<open>src/scripts/process-coastline.ts\<close> works on coordinates
  \<^verbatim>\<open>[number, number]\<close> (longitude, latitude).  A JavaScript number that is
  finite is a rational, and the model takes a coordinate to be that rational.  The
  results of arithmetic are of the type \<open>number\<close> below, which rounds as IEEE double
  arithmetic does.
\<close>

type_synonym coord = "rat \<times> rat"
type_synonym segment = "coord list"
type_synonym ring = "coord list"

subsection \<open>\<^verbatim>\<open>Number.prototype.toFixed(6)\<close> and \<^verbatim>\<open>coordKey\<close>\<close>

text \<open>Decimal digits of a natural number, most significant first.\<close>

fun digits :: "nat \<Rightarrow> string" where
  "digits n =
     (if n < 10 then [''0123456789'' ! n]
      else digits (n div 10) @ [''0123456789'' ! (n mod 10)])"

declare digits.simps [simp del]

text \<open>
  \<^verbatim>\<open>x.toFixed(6)\<close> as ECMAScript defines it for a finite \<open>x\<close> of magnitude below
  \<open>10\<^sup>2\<^sup>1\<close> (every longitude and latitude): the sign is split off, \<open>n\<close> is the
  integer closest to \<open>x \<sqdot> 10\<^sup>6\<close> (the larger one on a tie), its digits are padded
  with zeros on the left to seven characters, and the point is set before the last six.
\<close>

definition toFixed6 :: "rat \<Rightarrow> string" where
  "toFixed6 x =
     (let s = (if x < 0 then ''-'' else '''');
          a = (if x < 0 then - x else x);
          n = nat \<lfloor>a * 1000000 + 1 / 2\<rfloor>;
          m = (if n = 0 then ''0'' else digits n);
          m = (if length m \<le> 6 then replicate (7 - length m) (CHR ''0'') @ m else m);
          k = length m
      in s @ take (k - 6) m @ ''.'' @ drop (k - 6) m)"

text \<open>\<^verbatim>\<open>`${coord[0].toFixed(6)},${coord[1].toFixed(6)}`\<close>\<close>

definition coordKey :: "coord \<Rightarrow> string" where
  "coordKey c = toFixed6 (fst c) @ '','' @ toFixed6 (snd c)"

text \<open>The index of the quantisation cell of a magnitude: the integer \<^verbatim>\<open>toFixed(6)\<close> renders.\<close>

definition cell :: "rat \<Rightarrow> int" where
  "cell x = \<lfloor>\<bar>x\<bar> * 1000000 + 1 / 2\<rfloor>"

text \<open>Reading a rendered number back: its sign, and the value of its digits.\<close>

definition digit_value :: "char \<Rightarrow> nat" where
  "digit_value c = of_char c - 48"

definition undigits :: "string \<Rightarrow> nat" where
  "undigits s = foldl (\<lambda>acc c. 10 * acc + digit_value c) 0 s"

definition is_digit :: "char \<Rightarrow> bool" where
  "is_digit c \<longleftrightarrow> c \<in> set ''0123456789''"

definition read_fixed :: "string \<Rightarrow> bool \<times> nat" where
  "read_fixed s = (s \<noteq> [] \<and> hd s = CHR ''-'', undigits (filter is_digit s))"

text \<open>
  The rendering of \<^verbatim>\<open>toFixed(6)\<close> as a function of the sign and the rounded magnitude alone.
\<close>

definition fixed_string :: "bool \<Rightarrow> nat \<Rightarrow> string" where
  "fixed_string neg n =
     (let s = (if neg then ''-'' else '''');
          m = (if n = 0 then ''0'' else digits n);
          m = (if length m \<le> 6 then replicate (7 - length m) (CHR ''0'') @ m else m);
          k = length m
      in s @ take (k - 6) m @ ''.'' @ drop (k - 6) m)"

subsection \<open>Double arithmetic\<close>

text \<open>
  The value of a JavaScript expression of type \<^verbatim>\<open>number\<close>: a finite double, taken
  as the rational it is, an infinity, or NaN.  The two zeros are one value here; no
  operation of the script tells them apart.
\<close>

datatype number = Fin rat | PInf | NInf | NaN

text \<open>Rounding to the nearest integer, a tie going to the even one.\<close>

definition round_even :: "rat \<Rightarrow> int" where
  "round_even x =
     (let f = \<lfloor>x\<rfloor>; d = x - of_int f
      in if d < 1 / 2 then f else if 1 / 2 < d then f + 1 else if even f then f else f + 1)"

text \<open>
  \<open>\<lfloor>log\<^sub>2 a\<rfloor>\<close> by repeated halving or doubling; the first argument bounds the number
  of steps, and 1100 steps are enough for every \<open>a\<close> from \<open>2\<^sup>-\<^sup>1\<^sup>0\<^sup>2\<^sup>2\<close> up to \<open>2\<^sup>1\<^sup>0\<^sup>2\<^sup>4\<close>.
\<close>

fun ilog2 :: "nat \<Rightarrow> rat \<Rightarrow> int" where
  "ilog2 0 a = 0"
| "ilog2 (Suc fuel) a =
     (if 2 \<le> a then ilog2 fuel (a / 2) + 1
      else if a < 1 then ilog2 fuel (a * 2) - 1
      else 0)"

text \<open>
  The exponent of the unit in the last place of a double of magnitude \<open>a\<close>: 52 below
  the exponent of \<open>a\<close>, and \<open>-1074\<close> throughout the subnormal range.
\<close>

definition ulp_exponent :: "rat \<Rightarrow> int" where
  "ulp_exponent a = (if a < 2 powi (- 1022) then - 1022 else ilog2 1100 a) - 52"

text \<open>
  The double nearest to a real result \<open>x\<close> (IEEE 754 round to nearest, ties to even):
  \<open>x\<close> is rounded to a multiple of its unit in the last place, and a result of
  magnitude \<open>2\<^sup>1\<^sup>0\<^sup>2\<^sup>4\<close> or more is an infinity.
\<close>

definition fl :: "rat \<Rightarrow> number" where
  "fl x =
     (let a = \<bar>x\<bar>
      in if 2 ^ 1024 \<le> a then (if x < 0 then NInf else PInf)
         else let u = ulp_exponent a;
                  r = of_int (round_even (a / 2 powi u)) * 2 powi u
              in if 2 ^ 1024 \<le> r then (if x < 0 then NInf else PInf)
                 else Fin (if x < 0 then - r else r))"

fun fneg :: "number \<Rightarrow> number" where
  "fneg (Fin a) = Fin (- a)"
| "fneg PInf = NInf"
| "fneg NInf = PInf"
| "fneg NaN = NaN"

text \<open>\<^verbatim>\<open>a + b\<close>\<close>

fun fadd :: "number \<Rightarrow> number \<Rightarrow> number" where
  "fadd (Fin a) (Fin b) = fl (a + b)"
| "fadd NaN _ = NaN"
| "fadd _ NaN = NaN"
| "fadd PInf NInf = NaN"
| "fadd NInf PInf = NaN"
| "fadd PInf _ = PInf"
| "fadd _ PInf = PInf"
| "fadd NInf _ = NInf"
| "fadd _ NInf = NInf"

text \<open>\<^verbatim>\<open>a - b\<close>, which IEEE arithmetic computes as \<open>a + (- b)\<close>.\<close>

definition fsub :: "number \<Rightarrow> number \<Rightarrow> number" where
  "fsub a b = fadd a (fneg b)"

text \<open>\<^verbatim>\<open>a / 2\<close>\<close>

fun fhalf :: "number \<Rightarrow> number" where
  "fhalf (Fin a) = fl (a / 2)"
| "fhalf PInf = PInf"
| "fhalf NInf = NInf"
| "fhalf NaN = NaN"

text \<open>\<^verbatim>\<open>Math.abs(a)\<close>\<close>

fun fabs :: "number \<Rightarrow> number" where
  "fabs (Fin a) = Fin \<bar>a\<bar>"
| "fabs PInf = PInf"
| "fabs NInf = PInf"
| "fabs NaN = NaN"

text \<open>\<^verbatim>\<open>a > b\<close> and \<^verbatim>\<open>a <= b\<close>: every comparison with NaN is false.\<close>

fun fgt :: "number \<Rightarrow> number \<Rightarrow> bool" where
  "fgt (Fin a) (Fin b) \<longleftrightarrow> b < a"
| "fgt NaN _ \<longleftrightarrow> False"
| "fgt _ NaN \<longleftrightarrow> False"
| "fgt PInf PInf \<longleftrightarrow> False"
| "fgt PInf _ \<longleftrightarrow> True"
| "fgt _ PInf \<longleftrightarrow> False"
| "fgt NInf _ \<longleftrightarrow> False"
| "fgt _ NInf \<longleftrightarrow> True"

definition fle :: "number \<Rightarrow> number \<Rightarrow> bool" where
  "fle a b \<longleftrightarrow> a \<noteq> NaN \<and> b \<noteq> NaN \<and> \<not> fgt a b"

subsection \<open>\<^verbatim>\<open>calculateRingArea\<close>\<close>

text \<open>
  The loop \<^verbatim>\<open>for (let i = 0; i < ring.length - 1; i++)\<close> with its two updates of
  \<^verbatim>\<open>area\<close>, each a product of two coordinates rounded to a double and then added to
  or subtracted from \<^verbatim>\<open>area\<close> with another rounding.  For the empty ring the bound
  is \<open>-1\<close> and the body never runs, as with the truncated \<open>length ring - 1 = 0\<close> here.
  Inside the loop \<open>i + 1\<close> is in range.
\<close>

definition area_step :: "ring \<Rightarrow> nat \<Rightarrow> number \<Rightarrow> number" where
  "area_step ring i area =
     (let area = fadd area (fl (fst (ring ! i) * snd (ring ! (i + 1))));
          area = fsub area (fl (fst (ring ! (i + 1)) * snd (ring ! i)))
      in area)"

text \<open>\<^verbatim>\<open>return Math.abs(area / 2);\<close>\<close>

definition calculateRingArea :: "ring \<Rightarrow> number" where
  "calculateRingArea ring =
     fabs (fhalf (fold (area_step ring) [0..<length ring - 1] (Fin 0)))"


subsection \<open>The endpoint indexes of \<^verbatim>\<open>mergeSegments\<close>\<close>

text \<open>
  \<^verbatim>\<open>startIndex\<close> and \<^verbatim>\<open>endIndex\<close> are \<^verbatim>\<open>Map<string, number[]>\<close>.
  \<^verbatim>\<open>index.get(key) || []\<close> reads a key (an array is truthy, so only a missing key
  gives \<^verbatim>\<open>[]\<close>).
\<close>

type_synonym endpoint_index = "string \<rightharpoonup> nat list"

definition candidates :: "endpoint_index \<Rightarrow> string \<Rightarrow> nat list" where
  "candidates index key = (case index key of None \<Rightarrow> [] | Some l \<Rightarrow> l)"

text \<open>
  \<^verbatim>\<open>if (!index.has(key)) index.set(key, []); index.get(key)!.push(i);\<close>
\<close>

definition index_push :: "endpoint_index \<Rightarrow> string \<Rightarrow> nat \<Rightarrow> endpoint_index" where
  "index_push index key i = index(key \<mapsto> candidates index key @ [i])"

text \<open>
  The body of \<^verbatim>\<open>segments.forEach((seg, i) => ...)\<close>; \<open>hd seg\<close> is
  \<^verbatim>\<open>seg[0]\<close> and \<open>last seg\<close> is \<^verbatim>\<open>seg[seg.length - 1]\<close>, both read only
  when the segment has two points or more.
\<close>

definition index_segment ::
  "nat \<times> segment \<Rightarrow> endpoint_index \<times> endpoint_index \<Rightarrow> endpoint_index \<times> endpoint_index" where
  "index_segment e idx =
     (let i = fst e; seg = snd e; startIndex = fst idx; endIndex = snd idx
      in if length seg < 2 then (startIndex, endIndex)
         else let startKey = coordKey (hd seg);
                  endKey = coordKey (last seg)
              in (index_push startIndex startKey i, index_push endIndex endKey i))"

definition build_indexes :: "segment list \<Rightarrow> endpoint_index \<times> endpoint_index" where
  "build_indexes segments = fold index_segment (enumerate 0 segments) (Map.empty, Map.empty)"

subsection \<open>The ring-extension loop\<close>

text \<open>
  \<^verbatim>\<open>for (const candIdx of candidates) { if (used.has(candIdx)) continue; ...; break; }\<close>:
  the first candidate that is not consumed, if there is one.
\<close>

fun find_unused :: "nat set \<Rightarrow> nat list \<Rightarrow> nat option" where
  "find_unused used [] = None"
| "find_unused used (candIdx # rest) =
     (if candIdx \<in> used then find_unused used rest else Some candIdx)"

text \<open>
  How the \<^verbatim>\<open>while\<close> loop of one ring ends: the ring is pushed to
  \<^verbatim>\<open>rings\<close> (closed, or closed artificially), the loop breaks without a push, or
  the test \<^verbatim>\<open>iterations++ < maxIterations\<close> fails.  Each case carries the value
  of the local \<^verbatim>\<open>ring\<close> at that point; only an emitted ring reaches the result.
\<close>

datatype outcome = Emitted ring | Discarded ring | Overrun ring

definition maxIterations :: nat where
  "maxIterations = 10000"

text \<open>
  \<^verbatim>\<open>while (iterations++ < maxIterations) { ... }\<close> with \<^verbatim>\<open>iterations\<close>
  starting at 0: the test passes \<^verbatim>\<open>maxIterations\<close> times at most.  The first
  numeric argument is the number of passes left, \<^verbatim>\<open>maxIterations - iterations\<close>.
  The ring is never empty, and a candidate index comes from the indexes, so it is in
  range and its segment has two points or more; \<open>tl\<close> is \<^verbatim>\<open>slice(1)\<close>.
\<close>

fun extend_ring ::
  "segment list \<Rightarrow> endpoint_index \<Rightarrow> endpoint_index \<Rightarrow> nat \<Rightarrow> ring \<Rightarrow> nat set
     \<Rightarrow> outcome \<times> nat set" where
  "extend_ring segments startIndex endIndex 0 ring used = (Overrun ring, used)"
| "extend_ring segments startIndex endIndex (Suc left) ring used =
     (let endKey = coordKey (last ring)
      in if coordKey (hd ring) = endKey \<and> length ring > 3 then (Emitted ring, used)
         else
           (case find_unused used (candidates startIndex endKey) of
              Some candIdx \<Rightarrow>
                extend_ring segments startIndex endIndex left
                  (ring @ tl (segments ! candIdx)) (insert candIdx used)
            | None \<Rightarrow>
                (case find_unused used (candidates endIndex endKey) of
                   Some candIdx \<Rightarrow>
                     extend_ring segments startIndex endIndex left
                       (ring @ tl (rev (segments ! candIdx))) (insert candIdx used)
                 | None \<Rightarrow>
                     if length ring > 10 then (Emitted (ring @ [hd ring]), used)
                     else (Discarded ring, used))))"

subsection \<open>\<^verbatim>\<open>mergeSegments\<close>\<close>

text \<open>
  The body of \<^verbatim>\<open>for (let i = 0; i < segments.length; i++)\<close> on the state
  (\<^verbatim>\<open>rings\<close>, \<^verbatim>\<open>used\<close>).
\<close>

definition visit_segment ::
  "segment list \<Rightarrow> endpoint_index \<Rightarrow> endpoint_index \<Rightarrow> nat \<Rightarrow> ring list \<times> nat set
     \<Rightarrow> ring list \<times> nat set" where
  "visit_segment segments startIndex endIndex i st =
     (let rings = fst st; used = snd st
      in if i \<in> used then (rings, used)
         else let seg = segments ! i
              in if length seg < 2 then (rings, used)
                 else if coordKey (hd seg) = coordKey (last seg)
                 then (rings @ [seg], insert i used)
                 else (case extend_ring segments startIndex endIndex maxIterations seg
                              (insert i used) of
                         (Emitted ring, used') \<Rightarrow> (rings @ [ring], used')
                       | (_, used') \<Rightarrow> (rings, used')))"

definition merge_state :: "segment list \<Rightarrow> ring list \<times> nat set" where
  "merge_state segments =
     (let idx = build_indexes segments
      in fold (visit_segment segments (fst idx) (snd idx)) [0..<length segments] ([], {}))"

definition mergeSegments :: "segment list \<Rightarrow> ring list" where
  "mergeSegments segments = fst (merge_state segments)"


subsection \<open>The same run, recording which segments make up each ring\<close>

text \<open>
  The source keeps no record of the segments a ring was stitched from.  The functions
  below repeat the loop with one more component, the list of segment indexes whose
  coordinates were copied into the ring so far (in the order of the
  \<^verbatim>\<open>used.add\<close> calls); nothing reads it, and forgetting it gives the functions
  above.
\<close>

fun extend_ring_members ::
  "segment list \<Rightarrow> endpoint_index \<Rightarrow> endpoint_index \<Rightarrow> nat \<Rightarrow> ring \<Rightarrow> nat list
     \<Rightarrow> nat set \<Rightarrow> (outcome \<times> nat list) \<times> nat set" where
  "extend_ring_members segments startIndex endIndex 0 ring members used =
     ((Overrun ring, members), used)"
| "extend_ring_members segments startIndex endIndex (Suc left) ring members used =
     (let endKey = coordKey (last ring)
      in if coordKey (hd ring) = endKey \<and> length ring > 3
         then ((Emitted ring, members), used)
         else
           (case find_unused used (candidates startIndex endKey) of
              Some candIdx \<Rightarrow>
                extend_ring_members segments startIndex endIndex left
                  (ring @ tl (segments ! candIdx)) (members @ [candIdx]) (insert candIdx used)
            | None \<Rightarrow>
                (case find_unused used (candidates endIndex endKey) of
                   Some candIdx \<Rightarrow>
                     extend_ring_members segments startIndex endIndex left
                       (ring @ tl (rev (segments ! candIdx))) (members @ [candIdx])
                       (insert candIdx used)
                 | None \<Rightarrow>
                     if length ring > 10 then ((Emitted (ring @ [hd ring]), members), used)
                     else ((Discarded ring, members), used))))"

definition visit_segment_members ::
  "segment list \<Rightarrow> endpoint_index \<Rightarrow> endpoint_index \<Rightarrow> nat
     \<Rightarrow> (ring \<times> nat list) list \<times> nat set \<Rightarrow> (ring \<times> nat list) list \<times> nat set" where
  "visit_segment_members segments startIndex endIndex i st =
     (let rings = fst st; used = snd st
      in if i \<in> used then (rings, used)
         else let seg = segments ! i
              in if length seg < 2 then (rings, used)
                 else if coordKey (hd seg) = coordKey (last seg)
                 then (rings @ [(seg, [i])], insert i used)
                 else (case extend_ring_members segments startIndex endIndex maxIterations seg
                              [i] (insert i used) of
                         ((Emitted ring, members), used') \<Rightarrow> (rings @ [(ring, members)], used')
                       | (_, used') \<Rightarrow> (rings, used')))"

definition merge_state_members :: "segment list \<Rightarrow> (ring \<times> nat list) list \<times> nat set" where
  "merge_state_members segments =
     (let idx = build_indexes segments
      in fold (visit_segment_members segments (fst idx) (snd idx)) [0..<length segments]
           ([], {}))"

definition mergeSegments_members :: "segment list \<Rightarrow> (ring \<times> nat list) list" where
  "mergeSegments_members segments = fst (merge_state_members segments)"

subsection \<open>The shoelace formula as the specification words it\<close>

text \<open>
  The signed sum, over the consecutive pairs of coordinates of the ring, of
  \<open>x\<^sub>i \<sqdot> y\<^sub>i\<^sub>+\<^sub>1 - x\<^sub>i\<^sub>+\<^sub>1 \<sqdot> y\<^sub>i\<close>: in exact arithmetic, and accumulated pair by pair
  in double arithmetic.
\<close>

definition shoelace_sum :: "ring \<Rightarrow> rat" where
  "shoelace_sum ring =
     (\<Sum>i = 0..<length ring - 1.
        fst (ring ! i) * snd (ring ! (i + 1)) - fst (ring ! (i + 1)) * snd (ring ! i))"


subsection \<open>\<^verbatim>\<open>processCoastlineData\<close>\<close>

text \<open>
  The parsed input: \<^verbatim>\<open>OsmData.elements\<close>.  The code tests
  \<^verbatim>\<open>element.type === 'way' && element.geometry\<close> at run time, so the type tag is a
  string and the geometry may be absent (an array, even an empty one, is truthy).
\<close>

record OsmGeometryPoint =
  lat :: rat
  lon :: rat

record OsmWay =
  way_type :: string
  way_id :: int
  way_geometry :: "OsmGeometryPoint list option"
  nodes :: "int list"

text \<open>
  A GeoJSON feature as the scripts write and read it; a property value is a number, a
  string or \<^verbatim>\<open>null\<close>.
\<close>

datatype jvalue = JNum rat | JStr string | JNull

record polygon =
  geometry_type :: string
  coordinates :: "ring list"

record feature =
  feature_type :: string
  properties :: "string \<rightharpoonup> jvalue"
  geometry :: polygon

definition extract_segments :: "OsmWay list \<Rightarrow> segment list" where
  "extract_segments elements =
     concat (map (\<lambda>element.
        case way_geometry element of
          Some g \<Rightarrow> if way_type element = ''way'' then [map (\<lambda>p. (lon p, lat p)) g] else []
        | None \<Rightarrow> []) elements)"

text \<open>
  \<^verbatim>\<open>rings.filter(ring => { const area = calculateRingArea(ring); return area > 0.0001; })\<close>.
  The literal \<^verbatim>\<open>0.0001\<close> denotes the double nearest to \<open>1/10000\<close>.
\<close>

definition significantRings :: "ring list \<Rightarrow> ring list" where
  "significantRings rings =
     filter (\<lambda>ring. let area = calculateRingArea ring in fgt area (fl (1 / 10000))) rings"

text \<open>
  \<^verbatim>\<open>Array.prototype.sort(comparefn)\<close> is a stable sort.  It reads only the sign of
  \<^verbatim>\<open>comparefn(x, y)\<close>, NaN counting as zero, and a positive sign puts \<open>y\<close> before
  \<open>x\<close>.  Where the comparator is a consistent ordering of the elements, the result is
  the one stable sorted arrangement, which insertion from the right computes; otherwise
  the order is left to the engine.
\<close>

fun comparator_positive :: "number \<Rightarrow> bool" where
  "comparator_positive (Fin v) \<longleftrightarrow> 0 < v"
| "comparator_positive PInf \<longleftrightarrow> True"
| "comparator_positive NInf \<longleftrightarrow> False"
| "comparator_positive NaN \<longleftrightarrow> False"

fun insert_sorted :: "('a \<Rightarrow> 'a \<Rightarrow> number) \<Rightarrow> 'a \<Rightarrow> 'a list \<Rightarrow> 'a list" where
  "insert_sorted comparefn x [] = [x]"
| "insert_sorted comparefn x (y # ys) =
     (if comparator_positive (comparefn x y) then y # insert_sorted comparefn x ys
      else x # y # ys)"

definition array_sort :: "('a \<Rightarrow> 'a \<Rightarrow> number) \<Rightarrow> 'a list \<Rightarrow> 'a list" where
  "array_sort comparefn xs = foldr (insert_sorted comparefn) xs []"

text \<open>\<^verbatim>\<open>(a, b) => calculateRingArea(b) - calculateRingArea(a)\<close>\<close>

definition area_comparator :: "ring \<Rightarrow> ring \<Rightarrow> number" where
  "area_comparator a b = fsub (calculateRingArea b) (calculateRingArea a)"

text \<open>\<^verbatim>\<open>[...significantRings].sort(...)\<close>\<close>

definition sortedByArea :: "ring list \<Rightarrow> ring list" where
  "sortedByArea rings = array_sort area_comparator rings"

text \<open>\<^verbatim>\<open>sortedByArea.slice(0, 50)\<close>\<close>

definition mainLandFeatures :: "ring list \<Rightarrow> ring list" where
  "mainLandFeatures rings = take 50 (sortedByArea (significantRings rings))"

text \<open>
  \<^verbatim>\<open>JSON.stringify\<close> writes a finite number as it is and an infinity or NaN as
  \<^verbatim>\<open>null\<close>.
\<close>

fun json_number :: "number \<Rightarrow> jvalue" where
  "json_number (Fin r) = JNum r"
| "json_number PInf = JNull"
| "json_number NInf = JNull"
| "json_number NaN = JNull"

definition land_feature :: "nat \<times> ring \<Rightarrow> feature" where
  "land_feature e =
     (let i = fst e; ring = snd e
      in \<lparr>feature_type = ''Feature'',
          properties = [''id'' \<mapsto> JNum (of_nat i),
                        ''area'' \<mapsto> json_number (calculateRingArea ring)],
          geometry = \<lparr>geometry_type = ''Polygon'', coordinates = [ring]\<rparr>\<rparr>)"

text \<open>
  The features of \<^verbatim>\<open>combinedGeojson\<close> as the script writes them to
  \<^verbatim>\<open>src/data/helsinki-land.geojson\<close>.
\<close>

definition processCoastlineData :: "OsmWay list \<Rightarrow> feature list" where
  "processCoastlineData elements =
     (let segments = extract_segments elements;
          rings = mergeSegments segments
      in map land_feature (enumerate 0 (mainLandFeatures rings)))"

subsection \<open>The script that adds the mainland polygon\<close>

definition MAINLAND_POLYGON :: ring where
  "MAINLAND_POLYGON =
     [(247828 / 10000, 6010 / 100), (247828 / 10000, 6030 / 100), (2526 / 100, 6030 / 100),
      (2526 / 100, 6020 / 100),
      (2522 / 100, 6020 / 100), (2520 / 100, 60195 / 1000), (2517 / 100, 6019 / 100),
      (2514 / 100, 60185 / 1000), (2510 / 100, 6018 / 100), (2507 / 100, 60175 / 1000),
      (2505 / 100, 60175 / 1000), (2503 / 100, 60172 / 1000),
      (2502 / 100, 6017 / 100), (2500 / 100, 60168 / 1000), (2498 / 100, 60165 / 1000),
      (2496 / 100, 60162 / 1000), (2494 / 100, 60158 / 1000), (2492 / 100, 60155 / 1000),
      (2490 / 100, 60153 / 1000), (2488 / 100, 60152 / 1000), (2487 / 100, 60155 / 1000),
      (2486 / 100, 60158 / 1000), (2485 / 100, 60162 / 1000), (2484 / 100, 60168 / 1000),
      (2483 / 100, 60175 / 1000), (2482 / 100, 60182 / 1000), (2481 / 100, 6019 / 100),
      (2480 / 100, 6020 / 100),
      (247828 / 10000, 6020 / 100), (247828 / 10000, 6010 / 100)]"

definition mainland_feature :: feature where
  "mainland_feature =
     \<lparr>feature_type = ''Feature'',
      properties = [''id'' \<mapsto> JStr ''mainland'', ''name'' \<mapsto> JStr ''Helsinki Mainland''],
      geometry = \<lparr>geometry_type = ''Polygon'', coordinates = [MAINLAND_POLYGON]\<rparr>\<rparr>"

text \<open>
  \<^verbatim>\<open>(f, i) => ({ ...f, properties: { ...f.properties, id: `island-${i}`, name: `Island ${i}` } })\<close>
\<close>

definition relabel_island :: "nat \<times> feature \<Rightarrow> feature" where
  "relabel_island e =
     (let i = fst e; f = snd e
      in f\<lparr>properties := (properties f)
              (''id'' \<mapsto> JStr (''island-'' @ digits i),
               ''name'' \<mapsto> JStr (''Island '' @ digits i))\<rparr>)"

text \<open>\<^verbatim>\<open>islands\<close> is \<^verbatim>\<open>islandsData.features\<close>, read from the file the other script wrote.\<close>

definition combinedFeatures :: "feature list \<Rightarrow> feature list" where
  "combinedFeatures islands = mainland_feature # map relabel_island (enumerate 0 islands)"

text \<open>The ring of a feature: \<^verbatim>\<open>f.geometry.coordinates[0]\<close>.\<close>

definition feature_ring :: "feature \<Rightarrow> ring" where
  "feature_ring f = hd (coordinates (geometry f))"

subsection \<open>What the endpoint indexes hold\<close>

text \<open>
  The indexes in closed form, for the proofs: under a key, the indexes of the segments
  with two points or more whose first (or last) coordinate has that key, in ascending
  order.
\<close>

definition start_candidates :: "segment list \<Rightarrow> string \<Rightarrow> nat list" where
  "start_candidates segments key =
     filter (\<lambda>i. 2 \<le> length (segments ! i) \<and> coordKey (hd (segments ! i)) = key)
       [0..<length segments]"

definition end_candidates :: "segment list \<Rightarrow> string \<Rightarrow> nat list" where
  "end_candidates segments key =
     filter (\<lambda>i. 2 \<le> length (segments ! i) \<and> coordKey (last (segments ! i)) = key)
       [0..<length segments]"

text \<open>The closing test of the loop, \<^verbatim>\<open>coordKey(ring[0]) === endKey && ring.length > 3\<close>.\<close>

definition ring_closed :: "ring \<Rightarrow> bool" where
  "ring_closed ring \<longleftrightarrow> coordKey (hd ring) = coordKey (last ring) \<and> length ring > 3"

text \<open>What the proofs establish of each produced ring.\<close>

definition ring_ok :: "segment list \<Rightarrow> ring \<Rightarrow> bool" where
  "ring_ok segments r \<longleftrightarrow>
     coordKey (hd r) = coordKey (last r) \<and> 2 \<le> length r \<and> (4 \<le> length r \<or> r \<in> set segments)"

text \<open>Forgetting the recorded members of a state of the recording run.\<close>

definition forget_members :: "(ring \<times> nat list) list \<times> nat set \<Rightarrow> ring list \<times> nat set" where
  "forget_members st = (map fst (fst st), snd st)"

text \<open>
  The invariant of the recording run: no segment index is recorded twice, in one ring
  or in two, and every recorded index is marked consumed.
\<close>

definition members_tidy :: "(ring \<times> nat list) list \<times> nat set \<Rightarrow> bool" where
  "members_tidy st \<longleftrightarrow>
     distinct (concat (map snd (fst st))) \<and> set (concat (map snd (fst st))) \<subseteq> snd st"

text \<open>
  The index of a segment after one more segment has been inserted at position \<open>p\<close>.
\<close>

definition shift_index :: "nat \<Rightarrow> nat \<Rightarrow> nat" where
  "shift_index p j = (if j < p then j else Suc j)"

subsection \<open>Notions used in the statements\<close>

text \<open>The rationals that are multiples of the smallest positive double.\<close>

definition on_grid :: "rat \<Rightarrow> bool" where
  "on_grid r \<longleftrightarrow> (\<exists>k :: int. r = of_int k * 2 powi (- 1074))"

text \<open>The values an area can take when it is not NaN.\<close>

definition area_value :: "number \<Rightarrow> bool" where
  "area_value X \<longleftrightarrow> X = PInf \<or> (\<exists>r. X = Fin r \<and> 0 \<le> r \<and> on_grid r)"

definition descending_key :: "ring \<Rightarrow> rat option" where
  "descending_key ring =
     (case calculateRingArea ring of Fin a \<Rightarrow> Some (- a) | PInf \<Rightarrow> None | _ \<Rightarrow> Some 0)"

text \<open>A sample input: the way that traces the square of side \<open>k\<close> at the origin.\<close>

definition square_ring :: "nat \<Rightarrow> ring" where
  "square_ring k = [(0, 0), (of_nat k, 0), (of_nat k, of_nat k), (0, of_nat k), (0, 0)]"

definition square_way :: "nat \<Rightarrow> OsmWay" where
  "square_way k =
     \<lparr>way_type = ''way'', way_id = int k,
      way_geometry = Some [\<lparr>lat = 0, lon = 0\<rparr>, \<lparr>lat = 0, lon = of_nat k\<rparr>,
                           \<lparr>lat = of_nat k, lon = of_nat k\<rparr>, \<lparr>lat = of_nat k, lon = 0\<rparr>,
                           \<lparr>lat = 0, lon = 0\<rparr>],
      nodes = []\<rparr>"

section \<open>Evaluation lemmas\<close>

lemma digits_lt10: "n < 10 \<Longrightarrow> digits n = [''0123456789'' ! n]"
  by (simp add: digits.simps)

lemma digits_ge10:
  "10 \<le> n \<Longrightarrow> digits n = digits (n div 10) @ [''0123456789'' ! (n mod 10)]"
  by (subst digits.simps) simp

lemma floor_rat_numeral: "\<lfloor>numeral a / numeral b :: rat\<rfloor> = numeral a div numeral b"
  by (metis floor_divide_of_int_eq of_int_numeral)

lemma replicate_numeral: "replicate (numeral k) x = x # replicate (pred_numeral k) x"
  by (simp add: numeral_eq_Suc)

lemmas toFixed6_eval =
  toFixed6_def digits_lt10 digits_ge10 Let_def floor_rat_numeral replicate_numeral

lemma extend_ring_pos:
  "0 < n \<Longrightarrow> extend_ring segments startIndex endIndex n ring used =
     (let endKey = coordKey (last ring)
      in if coordKey (hd ring) = endKey \<and> length ring > 3 then (Emitted ring, used)
         else
           (case find_unused used (candidates startIndex endKey) of
              Some candIdx \<Rightarrow>
                extend_ring segments startIndex endIndex (n - 1)
                  (ring @ tl (segments ! candIdx)) (insert candIdx used)
            | None \<Rightarrow>
                (case find_unused used (candidates endIndex endKey) of
                   Some candIdx \<Rightarrow>
                     extend_ring segments startIndex endIndex (n - 1)
                       (ring @ tl (rev (segments ! candIdx))) (insert candIdx used)
                 | None \<Rightarrow>
                     if length ring > 10 then (Emitted (ring @ [hd ring]), used)
                     else (Discarded ring, used))))"
  by (cases n) (simp_all only: extend_ring.simps diff_Suc_1)

lemma key00: "coordKey (0, 0) = ''0.000000,0.000000''"
  by (simp add: coordKey_def toFixed6_eval)

lemma key10: "coordKey (1, 0) = ''1.000000,0.000000''"
  by (simp add: coordKey_def toFixed6_eval)

lemma key01: "coordKey (0, 1) = ''0.000000,1.000000''"
  by (simp add: coordKey_def toFixed6_eval)

lemma key11: "coordKey (1, 1) = ''1.000000,1.000000''"
  by (simp add: coordKey_def toFixed6_eval)

lemmas merge_eval =
  mergeSegments_def merge_state_def build_indexes_def index_segment_def index_push_def
  candidates_def visit_segment_def maxIterations_def upt_conv_Cons extend_ring_pos Let_def

section \<open>Stitching two segments into the unit square\<close>

text \<open>
  C5. On the segments \<open>A = [(0,0),(1,0),(1,1)]\<close> and \<open>B = [(1,1),(0,1),(0,0)]\<close>,
  \<open>mergeSegments\<close> yields exactly one ring, the closed unit square (\<open>A\<close> followed by
  \<open>B\<close> without its first point: forward stitching through the starts index).  On
  \<open>A\<close> and \<open>B' = [(0,0),(0,1),(1,1)]\<close> it yields the same single ring, \<open>A\<close>
  followed by \<open>B'\<close> reversed without its first point (reverse stitching through the
  ends index).
\<close>

theorem unit_square_stitching:
  "mergeSegments [[(0, 0), (1, 0), (1, 1)], [(1, 1), (0, 1), (0, 0)]]
     = [[(0, 0), (1, 0), (1, 1), (0, 1), (0, 0)]]
   \<and> mergeSegments [[(0, 0), (1, 0), (1, 1)], [(0, 0), (0, 1), (1, 1)]]
     = [[(0, 0), (1, 0), (1, 1)] @ tl (rev [(0, 0), (0, 1), (1, 1)])]
   \<and> [(0, 0), (1, 0), (1, 1)] @ tl (rev [(0, 0), (0, 1), (1, 1)])
     = [(0, 0), (1, 0), (1, 1), (0, 1), (0, 0 :: rat)]"
  by (simp add: merge_eval key00 key10 key01 key11)

section \<open>Coordinate keys and the quantisation tolerance\<close>

lemma toFixed6_abs:
  "toFixed6 x =
     (let s = (if x < 0 then ''-'' else '''');
          n = nat \<lfloor>\<bar>x\<bar> * 1000000 + 1 / 2\<rfloor>;
          m = (if n = 0 then ''0'' else digits n);
          m = (if length m \<le> 6 then replicate (7 - length m) (CHR ''0'') @ m else m);
          k = length m
      in s @ take (k - 6) m @ ''.'' @ drop (k - 6) m)"
  by (simp only: toFixed6_def abs_if Let_def)

lemma digit_char:
  assumes "d < 10"
  shows "is_digit (''0123456789'' ! d) \<and> digit_value (''0123456789'' ! d) = d"
proof -
  from assms have "d \<in> {0, 1, 2, 3, 4, 5, 6, 7, 8, 9}"
    by auto
  then show ?thesis
    by (auto simp: is_digit_def digit_value_def)
qed

lemma undigits_snoc: "undigits (s @ [c]) = 10 * undigits s + digit_value c"
  by (simp add: undigits_def)

lemma digits_is_digit: "\<forall>c \<in> set (digits n). is_digit c"
proof (induction n rule: digits.induct)
  case (1 n)
  show ?case
  proof (cases "n < 10")
    case True
    then show ?thesis
      by (simp add: digits_lt10 digit_char)
  next
    case False
    then have "digits n = digits (n div 10) @ [''0123456789'' ! (n mod 10)]"
      by (simp add: digits_ge10)
    moreover have "is_digit (''0123456789'' ! (n mod 10))"
      by (intro digit_char [THEN conjunct1]) simp
    ultimately show ?thesis
      using 1 False by auto
  qed
qed

lemma undigits_digits: "undigits (digits n) = n"
proof (induction n rule: digits.induct)
  case (1 n)
  show ?case
  proof (cases "n < 10")
    case True
    then show ?thesis
      by (simp add: digits_lt10 digit_char undigits_def)
  next
    case False
    then have "digits n = digits (n div 10) @ [''0123456789'' ! (n mod 10)]"
      by (simp add: digits_ge10)
    moreover have "digit_value (''0123456789'' ! (n mod 10)) = n mod 10"
      by (intro digit_char [THEN conjunct2]) simp
    ultimately show ?thesis
      using 1 False by (simp add: undigits_snoc)
  qed
qed

lemma digits_nonempty: "digits n \<noteq> []"
  by (subst digits.simps) simp

lemma undigits_zeros: "undigits (replicate k (CHR ''0'') @ s) = undigits s"
proof -
  have "foldl (\<lambda>acc c. 10 * acc + digit_value c) 0 (replicate k (CHR ''0'')) = 0"
    by (induction k) (simp_all add: digit_value_def)
  then show ?thesis
    by (simp add: undigits_def)
qed

lemma padded_digits:
  "undigits (if length (digits n) \<le> 6 then replicate (7 - length (digits n)) (CHR ''0'') @ digits n
             else digits n) = n"
  by (simp add: undigits_zeros undigits_digits)

lemma toFixed6_fixed_string: "toFixed6 x = fixed_string (x < 0) (nat (cell x))"
  by (simp only: toFixed6_abs fixed_string_def cell_def Let_def)

lemma read_fixed_string: "read_fixed (fixed_string neg n) = (neg, n)"
proof -
  define m where "m = (if length (digits n) \<le> 6
    then replicate (7 - length (digits n)) (CHR ''0'') @ digits n else digits n)"
  have d0: "(if n = 0 then ''0'' else digits n) = digits n"
    by (simp add: digits_lt10)
  have str: "fixed_string neg n
    = (if neg then ''-'' else '''') @ take (length m - 6) m @ ''.'' @ drop (length m - 6) m"
    by (simp only: fixed_string_def d0 Let_def m_def)
  have dig: "\<forall>c \<in> set m. is_digit c"
    using digits_is_digit [of n] by (auto simp: m_def is_digit_def)
  have len: "7 \<le> length m"
    by (simp add: m_def)
  have val: "undigits m = n"
    unfolding m_def by (rule padded_digits)
  have "\<forall>c \<in> set (take (length m - 6) m). is_digit c"
    using dig by (meson in_set_takeD)
  then have ft: "filter is_digit (take (length m - 6) m) = take (length m - 6) m"
    by simp
  have "\<forall>c \<in> set (drop (length m - 6) m). is_digit c"
    using dig by (meson in_set_dropD)
  then have fd: "filter is_digit (drop (length m - 6) m) = drop (length m - 6) m"
    by simp
  have nd: "\<not> is_digit (CHR ''-'')" "\<not> is_digit (CHR ''.'')"
    by (simp_all add: is_digit_def)
  have filt: "filter is_digit (fixed_string neg n) = m"
    by (simp add: str ft fd nd)
  have ne: "take (length m - 6) m \<noteq> []"
    using len by auto
  then have "hd (take (length m - 6) m) \<in> set (take (length m - 6) m)"
    by (rule hd_in_set)
  then have "is_digit (hd (take (length m - 6) m))"
    using \<open>\<forall>c \<in> set (take (length m - 6) m). is_digit c\<close> by blast
  then have "hd (take (length m - 6) m) \<noteq> CHR ''-''"
    using nd by auto
  then have sign: "(fixed_string neg n \<noteq> [] \<and> hd (fixed_string neg n) = CHR ''-'') \<longleftrightarrow> neg"
    using ne by (simp add: str hd_append)
  show ?thesis
    by (simp only: read_fixed_def filt val sign)
qed

lemma toFixed6_inj:
  "toFixed6 x = toFixed6 y \<longleftrightarrow> (x < 0 \<longleftrightarrow> y < 0) \<and> cell x = cell y"
proof
  assume "toFixed6 x = toFixed6 y"
  then have "read_fixed (toFixed6 x) = read_fixed (toFixed6 y)"
    by simp
  then have "(x < 0 \<longleftrightarrow> y < 0) \<and> nat (cell x) = nat (cell y)"
    by (simp add: toFixed6_fixed_string read_fixed_string)
  moreover have "0 \<le> cell x" "0 \<le> cell y"
    by (simp_all add: cell_def)
  ultimately show "(x < 0 \<longleftrightarrow> y < 0) \<and> cell x = cell y"
    by (simp add: eq_nat_nat_iff)
next
  assume "(x < 0 \<longleftrightarrow> y < 0) \<and> cell x = cell y"
  then show "toFixed6 x = toFixed6 y"
    by (simp add: toFixed6_fixed_string)
qed

lemma fixed_string_no_comma: "CHR '','' \<notin> set (fixed_string neg n)"
proof -
  define m where "m = (if length (digits n) \<le> 6
    then replicate (7 - length (digits n)) (CHR ''0'') @ digits n else digits n)"
  have d0: "(if n = 0 then ''0'' else digits n) = digits n"
    by (simp add: digits_lt10)
  have str: "fixed_string neg n
    = (if neg then ''-'' else '''') @ take (length m - 6) m @ ''.'' @ drop (length m - 6) m"
    by (simp only: fixed_string_def d0 Let_def m_def)
  have dig: "\<forall>c \<in> set m. is_digit c"
    using digits_is_digit [of n] by (auto simp: m_def is_digit_def)
  have "\<not> is_digit (CHR '','')"
    by (simp add: is_digit_def)
  then have "CHR '','' \<notin> set m"
    using dig by blast
  then have "CHR '','' \<notin> set (take (length m - 6) m)" "CHR '','' \<notin> set (drop (length m - 6) m)"
    by (meson in_set_takeD, meson in_set_dropD)
  then show ?thesis
    by (simp add: str)
qed

lemma split_at_comma:
  assumes "CHR '','' \<notin> set s" "CHR '','' \<notin> set s'"
    and "s @ '','' @ t = s' @ '','' @ t'"
  shows "s = s' \<and> t = t'"
proof -
  have "takeWhile (\<lambda>c. c \<noteq> CHR '','') (s @ '','' @ t) = s"
    using assms(1) by (auto simp: takeWhile_tail takeWhile_eq_all_conv)
  moreover have "takeWhile (\<lambda>c. c \<noteq> CHR '','') (s' @ '','' @ t') = s'"
    using assms(2) by (auto simp: takeWhile_tail takeWhile_eq_all_conv)
  ultimately have "s = s'"
    using assms(3) by simp
  then show ?thesis
    using assms(3) by simp
qed

lemma cell_bounds:
  "cell x = n \<longleftrightarrow> of_int n - 1 / 2 \<le> \<bar>x\<bar> * 1000000 \<and> \<bar>x\<bar> * 1000000 < of_int n + 1 / 2"
  unfolding cell_def by (subst floor_eq_iff) auto

text \<open>
  C6, as the code has it.  Two coordinates (of magnitude below \<open>10\<^sup>2\<^sup>1\<close>, where
  \<^verbatim>\<open>toFixed\<close> writes fixed-point notation) get the same key if and only if, component
  by component, the two numbers have the same sign and their magnitudes lie in the same
  quantisation cell: cell \<open>n\<close> is the interval \<open>[(n - 1/2) \<sqdot> 10\<^sup>-\<^sup>6, (n + 1/2) \<sqdot> 10\<^sup>-\<^sup>6)\<close>.
  So coordinates on different sides of a cell boundary get different keys, however
  close they are, and being within the tolerance of each other is not enough for equal
  keys, as the counterexample below shows.
\<close>

theorem coordKey_same_cell:
  assumes "\<bar>fst a\<bar> < 10 ^ 21" "\<bar>snd a\<bar> < 10 ^ 21" "\<bar>fst b\<bar> < 10 ^ 21" "\<bar>snd b\<bar> < 10 ^ 21"
  shows "(coordKey a = coordKey b \<longleftrightarrow>
           (fst a < 0 \<longleftrightarrow> fst b < 0) \<and> cell (fst a) = cell (fst b)
           \<and> (snd a < 0 \<longleftrightarrow> snd b < 0) \<and> cell (snd a) = cell (snd b))
         \<and> (cell x = n \<longleftrightarrow>
             of_int n - 1 / 2 \<le> \<bar>x\<bar> * 1000000 \<and> \<bar>x\<bar> * 1000000 < of_int n + 1 / 2)"
proof (intro conjI)
  have "coordKey a = coordKey b
    \<longleftrightarrow> toFixed6 (fst a) = toFixed6 (fst b) \<and> toFixed6 (snd a) = toFixed6 (snd b)"
  proof
    assume "coordKey a = coordKey b"
    then show "toFixed6 (fst a) = toFixed6 (fst b) \<and> toFixed6 (snd a) = toFixed6 (snd b)"
      unfolding coordKey_def
      by (intro split_at_comma) (simp_all only: toFixed6_fixed_string fixed_string_no_comma
          not_False_eq_True)
  next
    assume "toFixed6 (fst a) = toFixed6 (fst b) \<and> toFixed6 (snd a) = toFixed6 (snd b)"
    then show "coordKey a = coordKey b"
      by (simp add: coordKey_def)
  qed
  then show "coordKey a = coordKey b \<longleftrightarrow>
           (fst a < 0 \<longleftrightarrow> fst b < 0) \<and> cell (fst a) = cell (fst b)
           \<and> (snd a < 0 \<longleftrightarrow> snd b < 0) \<and> cell (snd a) = cell (snd b)"
    by (simp only: toFixed6_inj conj_assoc)
  show "cell x = n \<longleftrightarrow>
      of_int n - 1 / 2 \<le> \<bar>x\<bar> * 1000000 \<and> \<bar>x\<bar> * 1000000 < of_int n + 1 / 2"
    by (rule cell_bounds)
qed

theorem coordKey_same_cell_witness:
  "coordKey (1 / 4194304, 60) = coordKey (1 / 8388608, 60 + 1 / 4194304)
   \<and> cell (1 / 4194304) = 0 \<and> cell (1 / 8388608) = 0
   \<and> cell 60 = 60000000 \<and> cell (60 + 1 / 4194304) = 60000000
   \<and> coordKey (1 / 2097152, 0) \<noteq> coordKey (1 / 1048576, 0)
   \<and> cell (1 / 2097152) = 0 \<and> cell (1 / 1048576) = 1
   \<and> coordKey (- 1 / 4194304, 60) \<noteq> coordKey (1 / 4194304, 60)"
  using coordKey_same_cell [of "(1 / 4194304, 60)" "(1 / 8388608, 60 + 1 / 4194304)"]
    coordKey_same_cell [of "(1 / 2097152, 0)" "(1 / 1048576, 0)"]
    coordKey_same_cell [of "(- 1 / 4194304, 60)" "(1 / 4194304, 60)"]
  by (simp add: cell_def floor_rat_numeral)

text \<open>
  C6, as the specification words it, fails: \<open>2\<^sup>-\<^sup>2\<^sup>1\<close> and \<open>2\<^sup>-\<^sup>2\<^sup>0\<close> (both are
  doubles) differ by less than half a unit of the sixth decimal, yet the first is
  rendered \<open>0.000000\<close> and the second \<open>0.000001\<close>.
\<close>

theorem coordKey_tolerance_counterexample:
  "\<bar>fst (1 / 2097152 :: rat, 0 :: rat) - fst (1 / 1048576 :: rat, 0 :: rat)\<bar> < 1 / 2000000
   \<and> \<bar>snd (1 / 2097152 :: rat, 0 :: rat) - snd (1 / 1048576 :: rat, 0 :: rat)\<bar> < 1 / 2000000
   \<and> coordKey (1 / 2097152, 0) \<noteq> coordKey (1 / 1048576, 0)"
  by (simp add: coordKey_def toFixed6_eval)

section \<open>Adding the mainland polygon\<close>

lemma geometry_relabel_island: "geometry (relabel_island e) = geometry (snd e)"
  by (simp add: relabel_island_def Let_def)

lemma feature_type_relabel_island: "feature_type (relabel_island e) = feature_type (snd e)"
  by (simp add: relabel_island_def Let_def)

lemma properties_relabel_island:
  "properties (relabel_island (i, f)) k =
     (if k = ''name'' then Some (JStr (''Island '' @ digits i))
      else if k = ''id'' then Some (JStr (''island-'' @ digits i))
      else properties f k)"
  by (simp add: relabel_island_def Let_def)

lemma map_relabel_island:
  assumes "\<And>e. g (relabel_island e) = g (snd e)"
  shows "map g (map relabel_island (enumerate n xs)) = map g xs"
proof -
  have "g \<circ> relabel_island = g \<circ> snd"
    by (rule ext) (simp add: assms)
  then have "map g (map relabel_island (enumerate n xs)) = map g (map snd (enumerate n xs))"
    by (simp only: map_map)
  then show ?thesis
    by (simp only: map_snd_enumerate)
qed

text \<open>
  C9. \<open>combinedFeatures\<close> is the hand-authored mainland feature followed by one
  feature per island feature, in the same order; the geometry and the type of each
  island feature are unchanged, and of its properties only \<open>id\<close> and \<open>name\<close> are
  set, every other property keeping its value.
\<close>

theorem combinedFeatures_frame:
  "length (combinedFeatures islands) = 1 + length islands
   \<and> hd (combinedFeatures islands) = mainland_feature
   \<and> coordinates (geometry mainland_feature) = [MAINLAND_POLYGON]
   \<and> map geometry (tl (combinedFeatures islands)) = map geometry islands
   \<and> map feature_type (tl (combinedFeatures islands)) = map feature_type islands
   \<and> (\<forall>i < length islands. \<forall>k.
         properties (tl (combinedFeatures islands) ! i) k =
           (if k = ''name'' then Some (JStr (''Island '' @ digits i))
            else if k = ''id'' then Some (JStr (''island-'' @ digits i))
            else properties (islands ! i) k))"
proof -
  have tl: "tl (combinedFeatures islands) = map relabel_island (enumerate 0 islands)"
    by (simp add: combinedFeatures_def)
  have geo: "map geometry (tl (combinedFeatures islands)) = map geometry islands"
    unfolding tl by (rule map_relabel_island) (rule geometry_relabel_island)
  have ty: "map feature_type (tl (combinedFeatures islands)) = map feature_type islands"
    unfolding tl by (rule map_relabel_island) (rule feature_type_relabel_island)
  have props: "properties (tl (combinedFeatures islands) ! i) k =
           (if k = ''name'' then Some (JStr (''Island '' @ digits i))
            else if k = ''id'' then Some (JStr (''island-'' @ digits i))
            else properties (islands ! i) k)" if "i < length islands" for i k
    using that by (simp add: tl nth_enumerate_eq properties_relabel_island)
  have "length (combinedFeatures islands) = 1 + length islands"
    "hd (combinedFeatures islands) = mainland_feature"
    "coordinates (geometry mainland_feature) = [MAINLAND_POLYGON]"
    by (simp_all add: combinedFeatures_def mainland_feature_def)
  with geo ty props show ?thesis by blast
qed


theorem combinedFeatures_frame_witness:
  "(0 :: nat) < length [land_feature (0, [(0, 0), (1, 0), (1, 1), (0, 1), (0, 0)])]
   \<and> properties (tl (combinedFeatures
         [land_feature (0, [(0, 0), (1, 0), (1, 1), (0, 1), (0, 0)])]) ! 0) ''area''
       = properties (land_feature (0, [(0, 0), (1, 0), (1, 1), (0, 1), (0, 0)])) ''area''
   \<and> properties (tl (combinedFeatures
         [land_feature (0, [(0, 0), (1, 0), (1, 1), (0, 1), (0, 0)])]) ! 0) ''id''
       = Some (JStr ''island-0'')"
proof -
  let ?f = "land_feature (0, [(0, 0), (1, 0), (1, 1), (0, 1), (0, 0)])"
  have "(0 :: nat) < length [?f]" by simp
  with combinedFeatures_frame [of "[?f]"]
  have "\<forall>k. properties (tl (combinedFeatures [?f]) ! 0) k =
           (if k = ''name'' then Some (JStr (''Island '' @ digits 0))
            else if k = ''id'' then Some (JStr (''island-'' @ digits 0))
            else properties ([?f] ! 0) k)"
    by blast
  then show ?thesis
    by (simp add: digits_lt10)
qed

section \<open>The endpoint indexes in closed form\<close>

lemma candidates_index_push:
  "candidates (index_push index key i) k =
     (if k = key then candidates index key @ [i] else candidates index k)"
  by (simp add: candidates_def index_push_def)

lemma candidates_index_segment_start:
  "candidates (fst (index_segment e idx)) k =
     candidates (fst idx) k
       @ (if 2 \<le> length (snd e) \<and> coordKey (hd (snd e)) = k then [fst e] else [])"
  by (simp add: index_segment_def Let_def candidates_index_push)

lemma candidates_index_segment_end:
  "candidates (snd (index_segment e idx)) k =
     candidates (snd idx) k
       @ (if 2 \<le> length (snd e) \<and> coordKey (last (snd e)) = k then [fst e] else [])"
  by (simp add: index_segment_def Let_def candidates_index_push)

lemma candidates_fold_start:
  "candidates (fst (fold index_segment es idx)) k =
     candidates (fst idx) k
       @ map fst (filter (\<lambda>e. 2 \<le> length (snd e) \<and> coordKey (hd (snd e)) = k) es)"
proof (induction es arbitrary: idx)
  case Nil
  then show ?case by simp
next
  case (Cons e es)
  show ?case
    by (simp add: Cons.IH candidates_index_segment_start)
qed

lemma candidates_fold_end:
  "candidates (snd (fold index_segment es idx)) k =
     candidates (snd idx) k
       @ map fst (filter (\<lambda>e. 2 \<le> length (snd e) \<and> coordKey (last (snd e)) = k) es)"
proof (induction es arbitrary: idx)
  case Nil
  then show ?case by simp
next
  case (Cons e es)
  show ?case
    by (simp add: Cons.IH candidates_index_segment_end)
qed

lemma map_fst_filter_enumerate:
  "map fst (filter (\<lambda>e. P (snd e)) (enumerate 0 xs)) = filter (\<lambda>i. P (xs ! i)) [0..<length xs]"
proof (induction xs rule: rev_induct)
  case Nil
  then show ?case by simp
next
  case (snoc x xs)
  have "filter (\<lambda>i. P ((xs @ [x]) ! i)) [0..<length xs] = filter (\<lambda>i. P (xs ! i)) [0..<length xs]"
    by (rule filter_cong) (simp_all add: nth_append)
  with snoc show ?case
    by (simp add: enumerate_append_eq)
qed

lemma candidates_startIndex:
  "candidates (fst (build_indexes segments)) k = start_candidates segments k"
  unfolding build_indexes_def start_candidates_def candidates_fold_start
  using map_fst_filter_enumerate [of "\<lambda>seg. 2 \<le> length seg \<and> coordKey (hd seg) = k" segments]
  by (simp add: candidates_def)

lemma candidates_endIndex:
  "candidates (snd (build_indexes segments)) k = end_candidates segments k"
  unfolding build_indexes_def end_candidates_def candidates_fold_end
  using map_fst_filter_enumerate [of "\<lambda>seg. 2 \<le> length seg \<and> coordKey (last seg) = k" segments]
  by (simp add: candidates_def)

section \<open>One iteration of the extension loop\<close>

lemma fold_invariant:
  assumes "I s" and "\<And>x s. x \<in> set xs \<Longrightarrow> I s \<Longrightarrow> I (f x s)"
  shows "I (fold f xs s)"
  using assms by (induction xs arbitrary: s) simp_all

lemma extend_ring_closed:
  "ring_closed ring \<Longrightarrow> extend_ring segs si ei (Suc n) ring used = (Emitted ring, used)"
  by (simp add: ring_closed_def)

lemma extend_ring_start:
  "\<not> ring_closed ring \<Longrightarrow> find_unused used (candidates si (coordKey (last ring))) = Some c
     \<Longrightarrow> extend_ring segs si ei (Suc n) ring used =
           extend_ring segs si ei n (ring @ tl (segs ! c)) (insert c used)"
  by (auto simp: ring_closed_def Let_def)

lemma extend_ring_end:
  "\<not> ring_closed ring \<Longrightarrow> find_unused used (candidates si (coordKey (last ring))) = None
     \<Longrightarrow> find_unused used (candidates ei (coordKey (last ring))) = Some c
     \<Longrightarrow> extend_ring segs si ei (Suc n) ring used =
           extend_ring segs si ei n (ring @ tl (rev (segs ! c))) (insert c used)"
  by (auto simp: ring_closed_def Let_def)

lemma extend_ring_stuck:
  "\<not> ring_closed ring \<Longrightarrow> find_unused used (candidates si (coordKey (last ring))) = None
     \<Longrightarrow> find_unused used (candidates ei (coordKey (last ring))) = None
     \<Longrightarrow> extend_ring segs si ei (Suc n) ring used =
           (if length ring > 10 then (Emitted (ring @ [hd ring]), used) else (Discarded ring, used))"
  by (auto simp: ring_closed_def Let_def)

lemma extend_ring_cases [case_names closed starts ends stuck]:
  obtains
    (closed) "ring_closed ring"
      "extend_ring segs si ei (Suc n) ring used = (Emitted ring, used)"
  | (starts) c where "\<not> ring_closed ring"
      "find_unused used (candidates si (coordKey (last ring))) = Some c"
      "extend_ring segs si ei (Suc n) ring used =
         extend_ring segs si ei n (ring @ tl (segs ! c)) (insert c used)"
  | (ends) c where "\<not> ring_closed ring"
      "find_unused used (candidates si (coordKey (last ring))) = None"
      "find_unused used (candidates ei (coordKey (last ring))) = Some c"
      "extend_ring segs si ei (Suc n) ring used =
         extend_ring segs si ei n (ring @ tl (rev (segs ! c))) (insert c used)"
  | (stuck) "\<not> ring_closed ring"
      "find_unused used (candidates si (coordKey (last ring))) = None"
      "find_unused used (candidates ei (coordKey (last ring))) = None"
      "extend_ring segs si ei (Suc n) ring used =
         (if length ring > 10 then (Emitted (ring @ [hd ring]), used) else (Discarded ring, used))"
proof (cases "ring_closed ring")
  case True
  then show ?thesis using closed extend_ring_closed by blast
next
  case nc: False
  show ?thesis
  proof (cases "find_unused used (candidates si (coordKey (last ring)))")
    case (Some c)
    with nc show ?thesis using starts extend_ring_start by blast
  next
    case ns: None
    show ?thesis
    proof (cases "find_unused used (candidates ei (coordKey (last ring)))")
      case (Some c)
      with nc ns show ?thesis using ends extend_ring_end by blast
    next
      case None
      with nc ns show ?thesis using stuck extend_ring_stuck by blast
    qed
  qed
qed

declare extend_ring.simps(2) [simp del]

lemma extend_ring_emitted:
  "extend_ring segs si ei n ring used = (Emitted r, u) \<Longrightarrow> ring \<noteq> []
     \<Longrightarrow> coordKey (hd r) = coordKey (last r) \<and> 4 \<le> length r"
proof (induction n arbitrary: ring used)
  case 0
  then show ?case by simp
next
  case (Suc n)
  show ?case
  proof (cases rule: extend_ring_cases [of ring segs si ei n used])
    case closed
    with Suc.prems show ?thesis by (auto simp: ring_closed_def)
  next
    case (starts c)
    with Suc.prems show ?thesis by (intro Suc.IH [of "ring @ tl (segs ! c)"]) simp_all
  next
    case (ends c)
    with Suc.prems show ?thesis by (intro Suc.IH [of "ring @ tl (rev (segs ! c))"]) simp_all
  next
    case stuck
    with Suc.prems show ?thesis by (auto split: if_splits)
  qed
qed

lemma visit_segment_rings_ok:
  assumes "i < length segs" and "\<forall>r \<in> set (fst st). ring_ok segs r"
  shows "\<forall>r \<in> set (fst (visit_segment segs si ei i st)). ring_ok segs r"
proof (cases "i \<in> snd st \<or> length (segs ! i) < 2")
  case True
  with assms(2) show ?thesis
    by (auto simp: visit_segment_def Let_def)
next
  case fresh: False
  show ?thesis
  proof (cases "coordKey (hd (segs ! i)) = coordKey (last (segs ! i))")
    case True
    with fresh assms show ?thesis
      by (auto simp: visit_segment_def Let_def ring_ok_def)
  next
    case False
    obtain out u where e: "extend_ring segs si ei maxIterations (segs ! i) (insert i (snd st)) = (out, u)"
      by (cases "extend_ring segs si ei maxIterations (segs ! i) (insert i (snd st))")
    show ?thesis
    proof (cases out)
      case (Emitted r)
      from fresh have "segs ! i \<noteq> []" by auto
      with e Emitted have "coordKey (hd r) = coordKey (last r) \<and> 4 \<le> length r"
        by (intro extend_ring_emitted [of segs si ei maxIterations "segs ! i" _ r u]) simp_all
      with fresh False e Emitted assms(2) show ?thesis
        by (auto simp: visit_segment_def Let_def ring_ok_def)
    next
      case (Discarded r)
      with fresh False e assms(2) show ?thesis
        by (auto simp: visit_segment_def Let_def)
    next
      case (Overrun r)
      with fresh False e assms(2) show ?thesis
        by (auto simp: visit_segment_def Let_def)
    qed
  qed
qed

text \<open>
  C1, as the code has it.  Every ring produced by \<open>mergeSegments\<close> has at least two
  points and the key of its first coordinate equals the key of its last one (the two
  coordinates need not be equal); every produced ring that is not one of the input
  segments, accepted directly, has at least four points.
\<close>

theorem produced_rings_closed_by_key:
  "\<forall>r \<in> set (mergeSegments segs).
     coordKey (hd r) = coordKey (last r) \<and> 2 \<le> length r \<and> (4 \<le> length r \<or> r \<in> set segs)"
proof -
  let ?idx = "build_indexes segs"
  have "\<forall>r \<in> set (fst (fold (visit_segment segs (fst ?idx) (snd ?idx)) [0..<length segs] ([], {}))).
          ring_ok segs r"
    by (rule fold_invariant [where I = "\<lambda>st. \<forall>r \<in> set (fst st). ring_ok segs r"])
       (simp_all add: visit_segment_rings_ok)
  then show ?thesis
    by (simp add: mergeSegments_def merge_state_def Let_def ring_ok_def)
qed


lemma key_tiny: "coordKey (1 / 4194304, 0) = ''0.000000,0.000000''"
  by (simp add: coordKey_def toFixed6_eval)

lemma mergeSegments_forward:
  "mergeSegments [[(0, 0), (1, 0), (1, 1)], [(1, 1), (0, 1), (0, 0)]]
     = [[(0, 0), (1, 0), (1, 1), (0, 1), (0, 0)]]"
  by (simp add: merge_eval key00 key10 key01 key11)

theorem produced_rings_closed_by_key_witness:
  "[(0, 0), (1, 0), (1, 1), (0, 1), (0, 0)]
     \<in> set (mergeSegments [[(0, 0), (1, 0), (1, 1)], [(1, 1), (0, 1), (0, 0)]])
   \<and> coordKey (hd [(0, 0), (1, 0), (1, 1), (0, 1), (0, 0)])
       = coordKey (last [(0, 0), (1, 0), (1, 1), (0, 1), (0, 0)])
   \<and> 2 \<le> length [(0, 0), (1, 0), (1, 1), (0, 1), (0 :: rat, 0 :: rat)]
   \<and> (4 \<le> length [(0, 0), (1, 0), (1, 1), (0, 1), (0 :: rat, 0 :: rat)]
       \<or> [(0, 0), (1, 0), (1, 1), (0, 1), (0, 0)]
             \<in> set [[(0, 0), (1, 0), (1, 1)], [(1, 1), (0, 1), (0, 0)]])"
proof -
  have "[(0, 0), (1, 0), (1, 1), (0, 1), (0, 0)]
     \<in> set (mergeSegments [[(0, 0), (1, 0), (1, 1)], [(1, 1), (0, 1), (0, 0)]])"
    by (simp add: mergeSegments_forward)
  with produced_rings_closed_by_key [of "[[(0, 0), (1, 0), (1, 1)], [(1, 1), (0, 1), (0, 0)]]"]
  show ?thesis by (simp add: mergeSegments_forward)
qed

text \<open>
  C1, as the specification words it, fails on directly accepted segments: a segment
  whose end points differ by \<open>2\<^sup>-\<^sup>2\<^sup>2\<close> has equal end keys and is emitted as a ring
  whose first and last coordinates differ; and a three-point segment that returns to
  its start is emitted as a ring of three points.
\<close>

theorem produced_rings_counterexample:
  "mergeSegments [[(0, 0), (1, 0), (1, 1), (1 / 4194304, 0)]]
     = [[(0, 0), (1, 0), (1, 1), (1 / 4194304, 0)]]
   \<and> hd [(0, 0), (1, 0), (1, 1), (1 / 4194304 :: rat, 0 :: rat)]
       \<noteq> last [(0, 0), (1, 0), (1, 1), (1 / 4194304 :: rat, 0 :: rat)]
   \<and> mergeSegments [[(0, 0), (1, 0), (0, 0)]] = [[(0, 0), (1, 0), (0, 0)]]
   \<and> length [(0, 0), (1, 0), (0, 0 :: rat)] < 4"
  by (simp add: merge_eval key00 key_tiny)

text \<open>
  C2, as the code has it.  Each iteration tests first whether the ring is closed (the
  key of its first coordinate equals the key of its last one, and it has more than three
  points) and then emits it at once, consuming nothing, whatever the indexes offer.
  Only a ring that is not closed is extended: by the first unconsumed candidate of the
  starts index, else by the first unconsumed candidate of the ends index, reversed; with
  neither, it is closed artificially if it has more than ten points and dropped
  otherwise.
\<close>

theorem closing_test_comes_first:
  "(ring_closed ring \<longrightarrow>
      extend_ring segs si ei (Suc n) ring used = (Emitted ring, used))
   \<and> (\<not> ring_closed ring
        \<and> find_unused used (candidates si (coordKey (last ring))) = Some c \<longrightarrow>
      extend_ring segs si ei (Suc n) ring used =
        extend_ring segs si ei n (ring @ tl (segs ! c)) (insert c used))
   \<and> (\<not> ring_closed ring
        \<and> find_unused used (candidates si (coordKey (last ring))) = None
        \<and> find_unused used (candidates ei (coordKey (last ring))) = Some c \<longrightarrow>
      extend_ring segs si ei (Suc n) ring used =
        extend_ring segs si ei n (ring @ tl (rev (segs ! c))) (insert c used))
   \<and> (\<not> ring_closed ring
        \<and> find_unused used (candidates si (coordKey (last ring))) = None
        \<and> find_unused used (candidates ei (coordKey (last ring))) = None \<longrightarrow>
      extend_ring segs si ei (Suc n) ring used =
        (if length ring > 10 then (Emitted (ring @ [hd ring]), used)
         else (Discarded ring, used)))"
  by (simp add: extend_ring_closed extend_ring_start extend_ring_end extend_ring_stuck)


lemma key66: "coordKey (6, 6) = ''6.000000,6.000000''"
  by (simp add: coordKey_def toFixed6_eval)

lemmas candidates_eval =
  candidates_startIndex candidates_endIndex start_candidates_def end_candidates_def
  upt_conv_Cons key00 key10 key01 key11 key66

theorem closing_test_comes_first_witness:
  "ring_closed [(0, 0), (1, 0), (1, 1), (0, 1), (0, 0)]
   \<and> find_unused {0, 1} (candidates (fst (build_indexes [[(0, 0), (1, 0), (1, 1)], [(1, 1), (0, 1), (0, 0)], [(0, 0), (5, 5), (6, 6)]])) (coordKey (last [(0, 0), (1, 0), (1, 1), (0, 1), (0, 0)]))) = Some 2
   \<and> extend_ring [[(0, 0), (1, 0), (1, 1)], [(1, 1), (0, 1), (0, 0)], [(0, 0), (5, 5), (6, 6)]] (fst (build_indexes [[(0, 0), (1, 0), (1, 1)], [(1, 1), (0, 1), (0, 0)], [(0, 0), (5, 5), (6, 6)]])) (snd (build_indexes [[(0, 0), (1, 0), (1, 1)], [(1, 1), (0, 1), (0, 0)], [(0, 0), (5, 5), (6, 6)]])) (Suc 9999) [(0, 0), (1, 0), (1, 1), (0, 1), (0, 0)] {0, 1} = (Emitted [(0, 0), (1, 0), (1, 1), (0, 1), (0, 0)], {0, 1})
   \<and> \<not> ring_closed [(0, 0), (1, 0), (1, 1)]
   \<and> find_unused {0} (candidates (fst (build_indexes [[(0, 0), (1, 0), (1, 1)], [(1, 1), (0, 1), (0, 0)]])) (coordKey (last [(0, 0), (1, 0), (1, 1)]))) = Some 1
   \<and> extend_ring [[(0, 0), (1, 0), (1, 1)], [(1, 1), (0, 1), (0, 0)]] (fst (build_indexes [[(0, 0), (1, 0), (1, 1)], [(1, 1), (0, 1), (0, 0)]])) (snd (build_indexes [[(0, 0), (1, 0), (1, 1)], [(1, 1), (0, 1), (0, 0)]])) (Suc 1) [(0, 0), (1, 0), (1, 1)] {0}
       = extend_ring [[(0, 0), (1, 0), (1, 1)], [(1, 1), (0, 1), (0, 0)]] (fst (build_indexes [[(0, 0), (1, 0), (1, 1)], [(1, 1), (0, 1), (0, 0)]])) (snd (build_indexes [[(0, 0), (1, 0), (1, 1)], [(1, 1), (0, 1), (0, 0)]])) 1 ([(0, 0), (1, 0), (1, 1)] @ tl ([[(0, 0), (1, 0), (1, 1)], [(1, 1), (0, 1), (0, 0)]] ! 1)) (insert 1 {0})
   \<and> find_unused {0} (candidates (fst (build_indexes [[(0, 0), (1, 0), (1, 1)], [(0, 0), (0, 1), (1, 1)]])) (coordKey (last [(0, 0), (1, 0), (1, 1)]))) = None
   \<and> find_unused {0} (candidates (snd (build_indexes [[(0, 0), (1, 0), (1, 1)], [(0, 0), (0, 1), (1, 1)]])) (coordKey (last [(0, 0), (1, 0), (1, 1)]))) = Some 1
   \<and> extend_ring [[(0, 0), (1, 0), (1, 1)], [(0, 0), (0, 1), (1, 1)]] (fst (build_indexes [[(0, 0), (1, 0), (1, 1)], [(0, 0), (0, 1), (1, 1)]])) (snd (build_indexes [[(0, 0), (1, 0), (1, 1)], [(0, 0), (0, 1), (1, 1)]])) (Suc 1) [(0, 0), (1, 0), (1, 1)] {0}
       = extend_ring [[(0, 0), (1, 0), (1, 1)], [(0, 0), (0, 1), (1, 1)]] (fst (build_indexes [[(0, 0), (1, 0), (1, 1)], [(0, 0), (0, 1), (1, 1)]])) (snd (build_indexes [[(0, 0), (1, 0), (1, 1)], [(0, 0), (0, 1), (1, 1)]])) 1 ([(0, 0), (1, 0), (1, 1)] @ tl (rev ([[(0, 0), (1, 0), (1, 1)], [(0, 0), (0, 1), (1, 1)]] ! 1))) (insert 1 {0})
   \<and> find_unused {0} (candidates (fst (build_indexes [[(0, 0), (1, 0), (1, 1)]])) (coordKey (last [(0, 0), (1, 0), (1, 1)]))) = None
   \<and> find_unused {0} (candidates (snd (build_indexes [[(0, 0), (1, 0), (1, 1)]])) (coordKey (last [(0, 0), (1, 0), (1, 1)]))) = None
   \<and> extend_ring [[(0, 0), (1, 0), (1, 1)]] (fst (build_indexes [[(0, 0), (1, 0), (1, 1)]])) (snd (build_indexes [[(0, 0), (1, 0), (1, 1)]])) (Suc 1) [(0, 0), (1, 0), (1, 1)] {0} = (Discarded [(0, 0), (1, 0), (1, 1)], {0})"
proof -
  have c: "ring_closed [(0, 0), (1, 0), (1, 1), (0, 1), (0, 0)]"
    by (simp add: ring_closed_def key00)
  have avail: "find_unused {0, 1} (candidates (fst (build_indexes [[(0, 0), (1, 0), (1, 1)], [(1, 1), (0, 1), (0, 0)], [(0, 0), (5, 5), (6, 6)]])) (coordKey (last [(0, 0), (1, 0), (1, 1), (0, 1), (0, 0)]))) = Some 2"
    by (simp add: candidates_eval)
  have nc: "\<not> ring_closed [(0, 0), (1, 0), (1, 1)]"
    by (simp add: ring_closed_def)
  have s1: "find_unused {0} (candidates (fst (build_indexes [[(0, 0), (1, 0), (1, 1)], [(1, 1), (0, 1), (0, 0)]])) (coordKey (last [(0, 0), (1, 0), (1, 1)]))) = Some 1"
    by (simp add: candidates_eval)
  have s2: "find_unused {0} (candidates (fst (build_indexes [[(0, 0), (1, 0), (1, 1)], [(0, 0), (0, 1), (1, 1)]])) (coordKey (last [(0, 0), (1, 0), (1, 1)]))) = None"
    by (simp add: candidates_eval)
  have e2: "find_unused {0} (candidates (snd (build_indexes [[(0, 0), (1, 0), (1, 1)], [(0, 0), (0, 1), (1, 1)]])) (coordKey (last [(0, 0), (1, 0), (1, 1)]))) = Some 1"
    by (simp add: candidates_eval)
  have s3: "find_unused {0} (candidates (fst (build_indexes [[(0, 0), (1, 0), (1, 1)]])) (coordKey (last [(0, 0), (1, 0), (1, 1)]))) = None"
    by (simp add: candidates_eval)
  have e3: "find_unused {0} (candidates (snd (build_indexes [[(0, 0), (1, 0), (1, 1)]])) (coordKey (last [(0, 0), (1, 0), (1, 1)]))) = None"
    by (simp add: candidates_eval)
  have r1: "extend_ring [[(0, 0), (1, 0), (1, 1)], [(1, 1), (0, 1), (0, 0)], [(0, 0), (5, 5), (6, 6)]] (fst (build_indexes [[(0, 0), (1, 0), (1, 1)], [(1, 1), (0, 1), (0, 0)], [(0, 0), (5, 5), (6, 6)]])) (snd (build_indexes [[(0, 0), (1, 0), (1, 1)], [(1, 1), (0, 1), (0, 0)], [(0, 0), (5, 5), (6, 6)]])) (Suc 9999) [(0, 0), (1, 0), (1, 1), (0, 1), (0, 0)] {0, 1} = (Emitted [(0, 0), (1, 0), (1, 1), (0, 1), (0, 0)], {0, 1})"
    using closing_test_comes_first [of "[(0, 0), (1, 0), (1, 1), (0, 1), (0, 0)]" "[[(0, 0), (1, 0), (1, 1)], [(1, 1), (0, 1), (0, 0)], [(0, 0), (5, 5), (6, 6)]]" "fst (build_indexes [[(0, 0), (1, 0), (1, 1)], [(1, 1), (0, 1), (0, 0)], [(0, 0), (5, 5), (6, 6)]])" "snd (build_indexes [[(0, 0), (1, 0), (1, 1)], [(1, 1), (0, 1), (0, 0)], [(0, 0), (5, 5), (6, 6)]])"
        9999 "{0, 1}"] c by blast
  have r2: "extend_ring [[(0, 0), (1, 0), (1, 1)], [(1, 1), (0, 1), (0, 0)]] (fst (build_indexes [[(0, 0), (1, 0), (1, 1)], [(1, 1), (0, 1), (0, 0)]])) (snd (build_indexes [[(0, 0), (1, 0), (1, 1)], [(1, 1), (0, 1), (0, 0)]])) (Suc 1) [(0, 0), (1, 0), (1, 1)] {0}
       = extend_ring [[(0, 0), (1, 0), (1, 1)], [(1, 1), (0, 1), (0, 0)]] (fst (build_indexes [[(0, 0), (1, 0), (1, 1)], [(1, 1), (0, 1), (0, 0)]])) (snd (build_indexes [[(0, 0), (1, 0), (1, 1)], [(1, 1), (0, 1), (0, 0)]])) 1 ([(0, 0), (1, 0), (1, 1)] @ tl ([[(0, 0), (1, 0), (1, 1)], [(1, 1), (0, 1), (0, 0)]] ! 1)) (insert 1 {0})"
    using closing_test_comes_first [of "[(0, 0), (1, 0), (1, 1)]" "[[(0, 0), (1, 0), (1, 1)], [(1, 1), (0, 1), (0, 0)]]" "fst (build_indexes [[(0, 0), (1, 0), (1, 1)], [(1, 1), (0, 1), (0, 0)]])"
        "snd (build_indexes [[(0, 0), (1, 0), (1, 1)], [(1, 1), (0, 1), (0, 0)]])" 1 "{0}" 1] nc s1 by blast
  have r3: "extend_ring [[(0, 0), (1, 0), (1, 1)], [(0, 0), (0, 1), (1, 1)]] (fst (build_indexes [[(0, 0), (1, 0), (1, 1)], [(0, 0), (0, 1), (1, 1)]])) (snd (build_indexes [[(0, 0), (1, 0), (1, 1)], [(0, 0), (0, 1), (1, 1)]])) (Suc 1) [(0, 0), (1, 0), (1, 1)] {0}
       = extend_ring [[(0, 0), (1, 0), (1, 1)], [(0, 0), (0, 1), (1, 1)]] (fst (build_indexes [[(0, 0), (1, 0), (1, 1)], [(0, 0), (0, 1), (1, 1)]])) (snd (build_indexes [[(0, 0), (1, 0), (1, 1)], [(0, 0), (0, 1), (1, 1)]])) 1 ([(0, 0), (1, 0), (1, 1)] @ tl (rev ([[(0, 0), (1, 0), (1, 1)], [(0, 0), (0, 1), (1, 1)]] ! 1))) (insert 1 {0})"
    using closing_test_comes_first [of "[(0, 0), (1, 0), (1, 1)]" "[[(0, 0), (1, 0), (1, 1)], [(0, 0), (0, 1), (1, 1)]]" "fst (build_indexes [[(0, 0), (1, 0), (1, 1)], [(0, 0), (0, 1), (1, 1)]])"
        "snd (build_indexes [[(0, 0), (1, 0), (1, 1)], [(0, 0), (0, 1), (1, 1)]])" 1 "{0}" 1] nc s2 e2 by blast
  have r4: "extend_ring [[(0, 0), (1, 0), (1, 1)]] (fst (build_indexes [[(0, 0), (1, 0), (1, 1)]])) (snd (build_indexes [[(0, 0), (1, 0), (1, 1)]])) (Suc 1) [(0, 0), (1, 0), (1, 1)] {0} = (Discarded [(0, 0), (1, 0), (1, 1)], {0})"
    using closing_test_comes_first [of "[(0, 0), (1, 0), (1, 1)]" "[[(0, 0), (1, 0), (1, 1)]]" "fst (build_indexes [[(0, 0), (1, 0), (1, 1)]])"
        "snd (build_indexes [[(0, 0), (1, 0), (1, 1)]])" 1 "{0}"] nc s3 e3 by simp
  from c avail nc s1 s2 e2 s3 e3 r1 r2 r3 r4 show ?thesis
    by blast
qed

text \<open>
  C2, as the specification words it, fails: after the segments 0 and 1 have been
  stitched into the closed unit square, segment 2 starts at the trailing coordinate and
  is not consumed; the loop emits the square and leaves segment 2 alone, where the
  claimed order would have appended it.
\<close>

theorem continuation_not_consumed_counterexample:
  "coordKey (hd [(0, 0), (1, 0), (1, 1), (0, 1), (0, 0)]) = coordKey (last [(0, 0), (1, 0), (1, 1), (0, 1), (0, 0)]) \<and> 4 \<le> length [(0, 0), (1, 0), (1, 1), (0, 1), (0, 0)]
   \<and> find_unused {0, 1} (candidates (fst (build_indexes [[(0, 0), (1, 0), (1, 1)], [(1, 1), (0, 1), (0, 0)], [(0, 0), (5, 5), (6, 6)]])) (coordKey (last [(0, 0), (1, 0), (1, 1), (0, 1), (0, 0)]))) = Some 2
   \<and> extend_ring [[(0, 0), (1, 0), (1, 1)], [(1, 1), (0, 1), (0, 0)], [(0, 0), (5, 5), (6, 6)]] (fst (build_indexes [[(0, 0), (1, 0), (1, 1)], [(1, 1), (0, 1), (0, 0)], [(0, 0), (5, 5), (6, 6)]])) (snd (build_indexes [[(0, 0), (1, 0), (1, 1)], [(1, 1), (0, 1), (0, 0)], [(0, 0), (5, 5), (6, 6)]])) (Suc 9999) [(0, 0), (1, 0), (1, 1), (0, 1), (0, 0)] {0, 1} = (Emitted [(0, 0), (1, 0), (1, 1), (0, 1), (0, 0)], {0, 1})
   \<and> extend_ring [[(0, 0), (1, 0), (1, 1)], [(1, 1), (0, 1), (0, 0)], [(0, 0), (5, 5), (6, 6)]] (fst (build_indexes [[(0, 0), (1, 0), (1, 1)], [(1, 1), (0, 1), (0, 0)], [(0, 0), (5, 5), (6, 6)]])) (snd (build_indexes [[(0, 0), (1, 0), (1, 1)], [(1, 1), (0, 1), (0, 0)], [(0, 0), (5, 5), (6, 6)]])) (Suc 9999) [(0, 0), (1, 0), (1, 1), (0, 1), (0, 0)] {0, 1}
       \<noteq> extend_ring [[(0, 0), (1, 0), (1, 1)], [(1, 1), (0, 1), (0, 0)], [(0, 0), (5, 5), (6, 6)]] (fst (build_indexes [[(0, 0), (1, 0), (1, 1)], [(1, 1), (0, 1), (0, 0)], [(0, 0), (5, 5), (6, 6)]])) (snd (build_indexes [[(0, 0), (1, 0), (1, 1)], [(1, 1), (0, 1), (0, 0)], [(0, 0), (5, 5), (6, 6)]])) 9999 ([(0, 0), (1, 0), (1, 1), (0, 1), (0, 0)] @ tl ([[(0, 0), (1, 0), (1, 1)], [(1, 1), (0, 1), (0, 0)], [(0, 0), (5, 5), (6, 6)]] ! 2)) (insert 2 {0, 1})
   \<and> mergeSegments [[(0, 0), (1, 0), (1, 1)], [(1, 1), (0, 1), (0, 0)], [(0, 0), (5, 5), (6, 6)]] = [[(0, 0), (1, 0), (1, 1), (0, 1), (0, 0)]]"
proof -
  have avail: "find_unused {0, 1} (candidates (fst (build_indexes [[(0, 0), (1, 0), (1, 1)], [(1, 1), (0, 1), (0, 0)], [(0, 0), (5, 5), (6, 6)]])) (coordKey (last [(0, 0), (1, 0), (1, 1), (0, 1), (0, 0)]))) = Some 2"
    by (simp add: candidates_eval)
  have r: "extend_ring [[(0, 0), (1, 0), (1, 1)], [(1, 1), (0, 1), (0, 0)], [(0, 0), (5, 5), (6, 6)]] (fst (build_indexes [[(0, 0), (1, 0), (1, 1)], [(1, 1), (0, 1), (0, 0)], [(0, 0), (5, 5), (6, 6)]])) (snd (build_indexes [[(0, 0), (1, 0), (1, 1)], [(1, 1), (0, 1), (0, 0)], [(0, 0), (5, 5), (6, 6)]])) (Suc 9999) [(0, 0), (1, 0), (1, 1), (0, 1), (0, 0)] {0, 1} = (Emitted [(0, 0), (1, 0), (1, 1), (0, 1), (0, 0)], {0, 1})"
    by (rule extend_ring_closed) (simp add: ring_closed_def key00)
  have o: "extend_ring [[(0, 0), (1, 0), (1, 1)], [(1, 1), (0, 1), (0, 0)], [(0, 0), (5, 5), (6, 6)]] (fst (build_indexes [[(0, 0), (1, 0), (1, 1)], [(1, 1), (0, 1), (0, 0)], [(0, 0), (5, 5), (6, 6)]])) (snd (build_indexes [[(0, 0), (1, 0), (1, 1)], [(1, 1), (0, 1), (0, 0)], [(0, 0), (5, 5), (6, 6)]])) 9999 ([(0, 0), (1, 0), (1, 1), (0, 1), (0, 0)] @ tl ([[(0, 0), (1, 0), (1, 1)], [(1, 1), (0, 1), (0, 0)], [(0, 0), (5, 5), (6, 6)]] ! 2)) (insert 2 {0, 1})
             = (Discarded ([(0, 0), (1, 0), (1, 1), (0, 1), (0, 0)] @ tl ([[(0, 0), (1, 0), (1, 1)], [(1, 1), (0, 1), (0, 0)], [(0, 0), (5, 5), (6, 6)]] ! 2)), {0, 1, 2})"
    by (simp add: extend_ring_pos candidates_eval insert_commute)
  have m: "mergeSegments [[(0, 0), (1, 0), (1, 1)], [(1, 1), (0, 1), (0, 0)], [(0, 0), (5, 5), (6, 6)]] = [[(0, 0), (1, 0), (1, 1), (0, 1), (0, 0)]]"
    by (simp add: merge_eval key00 key10 key01 key11 key66)
  from avail r o m show ?thesis
    by (simp add: key00)
qed

section \<open>The iteration cap\<close>

lemma find_unused_Some:
  "find_unused used cs = Some c \<Longrightarrow> c \<in> set cs \<and> c \<notin> used"
  by (induction cs) (auto split: if_splits)

lemma find_unused_skip:
  "\<forall>x \<in> set xs. x \<in> used \<Longrightarrow> find_unused used (xs @ ys) = find_unused used ys"
  by (induction xs) simp_all

lemma start_candidates_in_range:
  "c \<in> set (start_candidates segs k) \<Longrightarrow> c < length segs \<and> 2 \<le> length (segs ! c)"
  by (simp add: start_candidates_def)

lemma end_candidates_in_range:
  "c \<in> set (end_candidates segs k) \<Longrightarrow> c < length segs \<and> 2 \<le> length (segs ! c)"
  by (simp add: end_candidates_def)

lemma extend_ring_used_mono:
  "extend_ring segs si ei n ring used = (out, u) \<Longrightarrow> used \<subseteq> u"
proof (induction n arbitrary: ring used)
  case 0
  then show ?case by simp
next
  case (Suc n)
  show ?case
  proof (cases rule: extend_ring_cases [of ring segs si ei n used])
    case closed
    with Suc.prems show ?thesis by simp
  next
    case (starts c)
    with Suc.prems have "insert c used \<subseteq> u" by (intro Suc.IH [of "ring @ tl (segs ! c)"]) simp
    then show ?thesis by simp
  next
    case (ends c)
    with Suc.prems have "insert c used \<subseteq> u" by (intro Suc.IH [of "ring @ tl (rev (segs ! c))"]) simp
    then show ?thesis by simp
  next
    case stuck
    with Suc.prems show ?thesis by (auto split: if_splits)
  qed
qed

lemma overrun_length:
  "extend_ring segs (fst (build_indexes segs)) (snd (build_indexes segs)) n ring used
     = (Overrun r, u) \<Longrightarrow> length ring + n \<le> length r"
proof (induction n arbitrary: ring used)
  case 0
  then show ?case by simp
next
  case (Suc n)
  let ?si = "fst (build_indexes segs)" and ?ei = "snd (build_indexes segs)"
  show ?case
  proof (cases rule: extend_ring_cases [of ring segs ?si ?ei n used])
    case closed
    with Suc.prems show ?thesis by simp
  next
    case (starts c)
    then have "c \<in> set (start_candidates segs (coordKey (last ring)))"
      using find_unused_Some [of used _ c] by (simp add: candidates_startIndex)
    then have "2 \<le> length (segs ! c)"
      by (simp add: start_candidates_in_range)
    moreover from starts Suc.prems have "length (ring @ tl (segs ! c)) + n \<le> length r"
      by (intro Suc.IH [of _ "insert c used"]) simp
    ultimately show ?thesis by simp
  next
    case (ends c)
    then have "c \<in> set (end_candidates segs (coordKey (last ring)))"
      using find_unused_Some [of used _ c] by (simp add: candidates_endIndex)
    then have "2 \<le> length (segs ! c)"
      by (simp add: end_candidates_in_range)
    moreover from ends Suc.prems have "length (ring @ tl (rev (segs ! c))) + n \<le> length r"
      by (intro Suc.IH [of _ "insert c used"]) simp
    ultimately show ?thesis by simp
  next
    case stuck
    with Suc.prems show ?thesis by (auto split: if_splits)
  qed
qed

text \<open>
  C3, as the code has it.  When the extension loop of the ring started at segment \<open>i\<close>
  ends because the iteration cap is exhausted, the ring is dropped: \<open>rings\<close> is
  unchanged and only the consumed segments are recorded.  The dropped ring always has
  more than ten points (at least one per iteration), so the force-close policy of the
  no-continuation case is not applied to it.
\<close>

theorem overrun_drops_ring:
  assumes "extend_ring segs (fst (build_indexes segs)) (snd (build_indexes segs)) maxIterations
             (segs ! i) (insert i used) = (Overrun ring, used')"
    and "i \<notin> used" and "2 \<le> length (segs ! i)"
    and "coordKey (hd (segs ! i)) \<noteq> coordKey (last (segs ! i))"
  shows "visit_segment segs (fst (build_indexes segs)) (snd (build_indexes segs)) i (rings, used)
           = (rings, used')
         \<and> 10 < length ring \<and> insert i used \<subseteq> used'"
proof -
  have "visit_segment segs (fst (build_indexes segs)) (snd (build_indexes segs)) i (rings, used)
           = (rings, used')"
    using assms by (simp add: visit_segment_def Let_def)
  moreover have "length (segs ! i) + maxIterations \<le> length ring"
    using assms(1) by (rule overrun_length)
  then have "10 < length ring"
    by (simp add: maxIterations_def)
  moreover have "insert i used \<subseteq> used'"
    using assms(1) by (rule extend_ring_used_mono)
  ultimately show ?thesis by simp
qed

lemma chain_start_candidates:
  "start_candidates ([(0, 0), (1, 0)] # replicate m [(1, 0), (1, 0)]) (coordKey (1, 0))
     = [Suc 0..<Suc m]"
proof -
  have "filter (\<lambda>i. 2 \<le> length (([(0, 0), (1, 0)] # replicate m [(1, 0), (1, 0)]) ! i)
            \<and> coordKey (hd (([(0, 0), (1, 0)] # replicate m [(1, 0), (1, 0)]) ! i)) = coordKey (1, 0))
          [Suc 0..<Suc m] = [Suc 0..<Suc m]"
    by (rule filter_True) (auto simp: nth_Cons')
  then show ?thesis
    by (simp add: start_candidates_def upt_conv_Cons key00 key10 del: upt_Suc)
qed

lemma find_unused_chain:
  assumes "j < m"
  shows "find_unused {0..j} [Suc 0..<Suc m] = Some (Suc j)"
proof -
  have "[Suc 0..<Suc j + (m - j)] = [Suc 0..<Suc j] @ [Suc j..<Suc j + (m - j)]"
    by (rule upt_add_eq_append) simp
  moreover have "Suc j + (m - j) = Suc m"
    using assms by simp
  ultimately have "[Suc 0..<Suc m] = [Suc 0..<Suc j] @ [Suc j..<Suc m]"
    by (simp only:)
  moreover have "[Suc j..<Suc m] = Suc j # [Suc (Suc j)..<Suc m]"
    using assms by (intro upt_conv_Cons) simp
  ultimately have split: "[Suc 0..<Suc m] = [Suc 0..<Suc j] @ Suc j # [Suc (Suc j)..<Suc m]"
    by (simp only:)
  have "find_unused {0..j} ([Suc 0..<Suc j] @ Suc j # [Suc (Suc j)..<Suc m])
          = find_unused {0..j} (Suc j # [Suc (Suc j)..<Suc m])"
    by (rule find_unused_skip) auto
  also have "\<dots> = Some (Suc j)"
    by simp
  finally show ?thesis
    by (simp only: split)
qed

lemma chain_extend:
  assumes "f \<le> m - j"
  shows "extend_ring ([(0, 0), (1, 0)] # replicate m [(1, 0), (1, 0)])
           (fst (build_indexes ([(0, 0), (1, 0)] # replicate m [(1, 0), (1, 0)])))
           (snd (build_indexes ([(0, 0), (1, 0)] # replicate m [(1, 0), (1, 0)])))
           f ((0, 0) # replicate (Suc j) (1, 0)) {0..j}
         = (Overrun ((0, 0) # replicate (Suc j + f) (1, 0)), {0..j + f})"
  using assms
proof (induction f arbitrary: j)
  case 0
  then show ?case by simp
next
  case (Suc f)
  let ?segs = "[(0, 0), (1, 0)] # replicate m [(1, 0), (1 :: rat, 0 :: rat)]"
  let ?ring = "(0, 0) # replicate (Suc j) (1 :: rat, 0 :: rat)"
  from Suc.prems have j: "j < m" by simp
  have nc: "\<not> ring_closed ?ring"
    by (simp add: ring_closed_def key00 key10)
  have "last ?ring = (1, 0)"
    by simp
  then have "candidates (fst (build_indexes ?segs)) (coordKey (last ?ring)) = [Suc 0..<Suc m]"
    by (simp only: candidates_startIndex chain_start_candidates)
  then have "find_unused {0..j} (candidates (fst (build_indexes ?segs)) (coordKey (last ?ring)))
          = Some (Suc j)"
    using find_unused_chain [OF j] by (simp only:)
  with nc have "extend_ring ?segs (fst (build_indexes ?segs)) (snd (build_indexes ?segs)) (Suc f)
                  ?ring {0..j}
      = extend_ring ?segs (fst (build_indexes ?segs)) (snd (build_indexes ?segs)) f
          (?ring @ tl (?segs ! Suc j)) (insert (Suc j) {0..j})"
    by (rule extend_ring_start)
  also have "?ring @ tl (?segs ! Suc j) = (0, 0) # replicate (Suc (Suc j)) (1, 0)"
    using j by (simp add: replicate_append_same)
  also have "insert (Suc j) {0..j} = {0..Suc j}"
    by (simp add: atLeastAtMostSuc_conv)
  also have "extend_ring ?segs (fst (build_indexes ?segs)) (snd (build_indexes ?segs)) f
          ((0, 0) # replicate (Suc (Suc j)) (1, 0)) {0..Suc j}
       = (Overrun ((0, 0) # replicate (Suc (Suc j) + f) (1, 0)), {0..Suc j + f})"
    using Suc.prems by (intro Suc.IH) simp
  finally show ?case by simp
qed

lemma visit_segment_used:
  "i \<in> used \<Longrightarrow> visit_segment segs si ei i (rings, used) = (rings, used)"
  by (simp add: visit_segment_def)

lemma fold_visit_segment_used:
  "\<forall>i \<in> set xs. i \<in> used \<Longrightarrow> fold (visit_segment segs si ei) xs (rings, used) = (rings, used)"
  by (induction xs) (simp_all add: visit_segment_used)

lemma chain_merge_state_any:
  assumes "maxIterations = m"
  shows "merge_state ([(0, 0), (1, 0)] # replicate m [(1, 0), (1, 0)]) = ([], {0..m})"
proof -
  let ?segs = "[(0, 0), (1, 0)] # replicate m [(1, 0), (1 :: rat, 0 :: rat)]"
  let ?si = "fst (build_indexes ?segs)" and ?ei = "snd (build_indexes ?segs)"
  have "extend_ring ?segs ?si ?ei maxIterations [(0, 0), (1, 0)] {0}
          = (Overrun ((0, 0) # replicate (Suc m) (1, 0)), {0..m})"
    using chain_extend [of m m 0] assms by simp
  then have v0: "visit_segment ?segs ?si ?ei 0 ([], {}) = ([], {0..m})"
    by (simp add: visit_segment_def key00 key10)
  have "[0..<length ?segs] = 0 # [Suc 0..<Suc m]"
    by (simp add: upt_conv_Cons del: upt_Suc)
  then have "fold (visit_segment ?segs ?si ?ei) [0..<length ?segs] ([], {})
          = fold (visit_segment ?segs ?si ?ei) [Suc 0..<Suc m] (visit_segment ?segs ?si ?ei 0 ([], {}))"
    by (simp only: fold_simps)
  also have "\<dots> = ([], {0..m})"
    unfolding v0 by (rule fold_visit_segment_used) auto
  finally show ?thesis
    by (simp add: merge_state_def Let_def)
qed

lemma chain_overrun:
  "extend_ring ([(0, 0), (1, 0)] # replicate 10000 [(1, 0), (1, 0)])
           (fst (build_indexes ([(0, 0), (1, 0)] # replicate 10000 [(1, 0), (1, 0)])))
           (snd (build_indexes ([(0, 0), (1, 0)] # replicate 10000 [(1, 0), (1, 0)])))
           maxIterations [(0, 0), (1, 0)] {0}
         = (Overrun ((0, 0) # replicate 10001 (1, 0)), {0..10000})"
  using chain_extend [of 10000 10000 0] by (simp add: maxIterations_def)

lemma chain_merge_state:
  "merge_state ([(0, 0), (1, 0)] # replicate 10000 [(1, 0), (1, 0)]) = ([], {0..10000})"
  by (rule chain_merge_state_any) (simp add: maxIterations_def)

theorem overrun_drops_ring_witness:
  "visit_segment ([(0, 0), (1, 0)] # replicate 10000 [(1, 0), (1, 0)])
           (fst (build_indexes ([(0, 0), (1, 0)] # replicate 10000 [(1, 0), (1, 0)])))
           (snd (build_indexes ([(0, 0), (1, 0)] # replicate 10000 [(1, 0), (1, 0)])))
           0 ([], {}) = ([], {0..10000})
   \<and> 10 < length ((0 :: rat, 0 :: rat) # replicate 10001 (1, 0))"
  using overrun_drops_ring [of "[(0, 0), (1, 0)] # replicate 10000 [(1, 0), (1, 0)]" 0 "{}"
      "(0, 0) # replicate 10001 (1, 0)" "{0..10000}" "[]"] chain_overrun
  by (simp add: key00 key10)

text \<open>
  C3, as the specification words it, fails: on a two-point segment followed by 10000
  segments that each continue it, the loop of the first segment runs out of iterations
  with a ring of 10002 points, and no ring at all is produced, where the claimed policy
  would have closed and emitted it.
\<close>

theorem overrun_not_force_closed_counterexample:
  "extend_ring ([(0, 0), (1, 0)] # replicate 10000 [(1, 0), (1, 0)])
           (fst (build_indexes ([(0, 0), (1, 0)] # replicate 10000 [(1, 0), (1, 0)])))
           (snd (build_indexes ([(0, 0), (1, 0)] # replicate 10000 [(1, 0), (1, 0)])))
           maxIterations [(0, 0), (1, 0)] {0}
         = (Overrun ((0, 0) # replicate 10001 (1, 0)), {0..10000})
   \<and> length ((0 :: rat, 0 :: rat) # replicate 10001 (1, 0)) = 10002
   \<and> mergeSegments ([(0, 0), (1, 0)] # replicate 10000 [(1, 0), (1, 0)]) = []"
  using chain_overrun chain_merge_state by (simp add: mergeSegments_def)

section \<open>Each segment is consumed into at most one ring\<close>

declare extend_ring_members.simps(2) [simp del]

lemma extend_ring_members_forget:
  "extend_ring_members segs si ei n ring members used = ((out, members'), u)
     \<Longrightarrow> extend_ring segs si ei n ring used = (out, u)"
proof (induction n arbitrary: ring members used)
  case 0
  then show ?case by simp
next
  case (Suc n)
  show ?case
  proof (cases rule: extend_ring_cases [of ring segs si ei n used])
    case closed
    with Suc.prems show ?thesis
      by (simp add: extend_ring_members.simps(2) ring_closed_def)
  next
    case (starts c)
    with Suc.prems
    have "extend_ring_members segs si ei n (ring @ tl (segs ! c)) (members @ [c]) (insert c used)
            = ((out, members'), u)"
      by (auto simp: extend_ring_members.simps(2) ring_closed_def Let_def)
    then show ?thesis
      using starts(3) Suc.IH by simp
  next
    case (ends c)
    with Suc.prems
    have "extend_ring_members segs si ei n (ring @ tl (rev (segs ! c))) (members @ [c])
            (insert c used) = ((out, members'), u)"
      by (auto simp: extend_ring_members.simps(2) ring_closed_def Let_def)
    then show ?thesis
      using ends(4) Suc.IH by simp
  next
    case stuck
    with Suc.prems show ?thesis
      by (auto simp: extend_ring_members.simps(2) ring_closed_def Let_def split: if_splits)
  qed
qed

lemma extend_ring_members_fresh:
  "extend_ring_members segs si ei n ring members used = ((out, members'), u)
     \<Longrightarrow> distinct members \<Longrightarrow> set members \<subseteq> used
     \<Longrightarrow> distinct members' \<and> set members' \<subseteq> u
         \<and> (\<forall>x \<in> set members'. x \<in> set members \<or> x \<notin> used)"
proof (induction n arbitrary: ring members used)
  case 0
  then show ?case by auto
next
  case (Suc n)
  show ?case
  proof (cases rule: extend_ring_cases [of ring segs si ei n used])
    case closed
    with Suc.prems show ?thesis
      by (auto simp: extend_ring_members.simps(2) ring_closed_def)
  next
    case (starts c)
    with Suc.prems(1)
    have step: "extend_ring_members segs si ei n (ring @ tl (segs ! c)) (members @ [c])
            (insert c used) = ((out, members'), u)"
      by (auto simp: extend_ring_members.simps(2) ring_closed_def Let_def)
    from starts(2) have c: "c \<notin> used"
      by (simp add: find_unused_Some)
    with Suc.prems(2,3) have "distinct (members @ [c])" "set (members @ [c]) \<subseteq> insert c used"
      by auto
    from Suc.IH [OF step this] c show ?thesis
      by auto
  next
    case (ends c)
    with Suc.prems(1)
    have step: "extend_ring_members segs si ei n (ring @ tl (rev (segs ! c))) (members @ [c])
            (insert c used) = ((out, members'), u)"
      by (auto simp: extend_ring_members.simps(2) ring_closed_def Let_def)
    from ends(3) have c: "c \<notin> used"
      by (simp add: find_unused_Some)
    with Suc.prems(2,3) have "distinct (members @ [c])" "set (members @ [c]) \<subseteq> insert c used"
      by auto
    from Suc.IH [OF step this] c show ?thesis
      by auto
  next
    case stuck
    with Suc.prems show ?thesis
      by (auto simp: extend_ring_members.simps(2) ring_closed_def Let_def split: if_splits)
  qed
qed

lemma visit_segment_members_forget:
  "forget_members (visit_segment_members segs si ei i st)
     = visit_segment segs si ei i (forget_members st)"
proof (cases "i \<in> snd st \<or> length (segs ! i) < 2
               \<or> coordKey (hd (segs ! i)) = coordKey (last (segs ! i))")
  case True
  then show ?thesis
    by (auto simp: visit_segment_members_def visit_segment_def forget_members_def Let_def)
next
  case False
  obtain out ms u where e:
    "extend_ring_members segs si ei maxIterations (segs ! i) [i] (insert i (snd st)) = ((out, ms), u)"
    by (metis surj_pair)
  then have e': "extend_ring segs si ei maxIterations (segs ! i) (insert i (snd st)) = (out, u)"
    by (rule extend_ring_members_forget)
  from False e e' show ?thesis
    by (cases out)
       (simp_all add: visit_segment_members_def visit_segment_def forget_members_def Let_def)
qed

lemma fold_visit_segment_members_forget:
  "forget_members (fold (visit_segment_members segs si ei) xs st)
     = fold (visit_segment segs si ei) xs (forget_members st)"
  by (induction xs arbitrary: st) (simp_all add: visit_segment_members_forget)

lemma merge_state_members_forget:
  "forget_members (merge_state_members segs) = merge_state segs"
  by (simp add: merge_state_members_def merge_state_def Let_def
        fold_visit_segment_members_forget) (simp add: forget_members_def)

lemma mergeSegments_members_forget:
  "map fst (mergeSegments_members segs) = mergeSegments segs"
proof -
  have "fst (forget_members (merge_state_members segs)) = fst (merge_state segs)"
    by (simp only: merge_state_members_forget)
  then show ?thesis
    by (simp add: mergeSegments_members_def mergeSegments_def forget_members_def)
qed

lemma visit_segment_members_tidy:
  assumes "members_tidy st"
  shows "members_tidy (visit_segment_members segs si ei i st)"
proof (cases "i \<in> snd st \<or> length (segs ! i) < 2")
  case True
  with assms show ?thesis
    by (auto simp: visit_segment_members_def Let_def)
next
  case fresh: False
  show ?thesis
  proof (cases "coordKey (hd (segs ! i)) = coordKey (last (segs ! i))")
    case True
    with fresh assms show ?thesis
      by (auto simp: visit_segment_members_def Let_def members_tidy_def)
  next
    case False
    obtain out ms u where e:
      "extend_ring_members segs si ei maxIterations (segs ! i) [i] (insert i (snd st)) = ((out, ms), u)"
      by (metis surj_pair)
    then have "extend_ring segs si ei maxIterations (segs ! i) (insert i (snd st)) = (out, u)"
      by (rule extend_ring_members_forget)
    then have mono: "insert i (snd st) \<subseteq> u"
      by (rule extend_ring_used_mono)
    from e have ms: "distinct ms \<and> set ms \<subseteq> u \<and> (\<forall>x \<in> set ms. x \<in> set [i] \<or> x \<notin> insert i (snd st))"
      by (rule extend_ring_members_fresh) simp_all
    show ?thesis
    proof (cases out)
      case (Emitted r)
      with fresh False e
      have v: "visit_segment_members segs si ei i st = (fst st @ [(r, ms)], u)"
        by (simp add: visit_segment_members_def Let_def)
      from ms fresh have "set ms \<inter> snd st = {}"
        by auto
      with assms ms mono show ?thesis
        unfolding v members_tidy_def by auto
    next
      case (Discarded r)
      with fresh False e
      have v: "visit_segment_members segs si ei i st = (fst st, u)"
        by (simp add: visit_segment_members_def Let_def)
      with assms mono show ?thesis
        unfolding v members_tidy_def by auto
    next
      case (Overrun r)
      with fresh False e
      have v: "visit_segment_members segs si ei i st = (fst st, u)"
        by (simp add: visit_segment_members_def Let_def)
      with assms mono show ?thesis
        unfolding v members_tidy_def by auto
    qed
  qed
qed

lemma merge_state_members_tidy: "members_tidy (merge_state_members segs)"
  unfolding merge_state_members_def Let_def
proof (rule fold_invariant)
  show "members_tidy ([], {})"
    by (simp add: members_tidy_def)
next
  fix x st
  assume "members_tidy st"
  then show "members_tidy (visit_segment_members segs (fst (build_indexes segs))
                 (snd (build_indexes segs)) x st)"
    by (rule visit_segment_members_tidy)
qed

lemma extend_ring_members_pos:
  "0 < n \<Longrightarrow> extend_ring_members segments startIndex endIndex n ring members used =
     (let endKey = coordKey (last ring)
      in if coordKey (hd ring) = endKey \<and> length ring > 3
         then ((Emitted ring, members), used)
         else
           (case find_unused used (candidates startIndex endKey) of
              Some candIdx \<Rightarrow>
                extend_ring_members segments startIndex endIndex (n - 1)
                  (ring @ tl (segments ! candIdx)) (members @ [candIdx]) (insert candIdx used)
            | None \<Rightarrow>
                (case find_unused used (candidates endIndex endKey) of
                   Some candIdx \<Rightarrow>
                     extend_ring_members segments startIndex endIndex (n - 1)
                       (ring @ tl (rev (segments ! candIdx))) (members @ [candIdx])
                       (insert candIdx used)
                 | None \<Rightarrow>
                     if length ring > 10 then ((Emitted (ring @ [hd ring]), members), used)
                     else ((Discarded ring, members), used))))"
  by (cases n) (simp_all only: extend_ring_members.simps diff_Suc_1)

lemmas merge_members_eval =
  mergeSegments_members_def merge_state_members_def build_indexes_def index_segment_def
  index_push_def candidates_def visit_segment_members_def maxIterations_def upt_conv_Cons
  extend_ring_members_pos Let_def

lemma mergeSegments_members_forward:
  "mergeSegments_members [[(0, 0), (1, 0), (1, 1)], [(1, 1), (0, 1), (0, 0)]]
     = [([(0, 0), (1, 0), (1, 1), (0, 1), (0, 0)], [0, 1])]"
  by (simp add: merge_members_eval key00 key10 key01 key11)

text \<open>
  C10. In the run that records, for each produced ring, the indexes of the segments
  stitched into it, forgetting the record gives \<open>mergeSegments\<close>, and no index is
  recorded twice: the list of each ring has no repetition and the lists of two
  different rings share no index.  On the two halves of the unit square the one ring
  records both segments.
\<close>

theorem segments_consumed_once:
  "map fst (mergeSegments_members segs) = mergeSegments segs
   \<and> distinct (concat (map snd (mergeSegments_members segs)))
   \<and> mergeSegments_members [[(0, 0), (1, 0), (1, 1)], [(1, 1), (0, 1), (0, 0)]]
       = [([(0, 0), (1, 0), (1, 1), (0, 1), (0, 0)], [0, 1])]"
  using merge_state_members_tidy [of segs]
  by (simp add: mergeSegments_members_forget mergeSegments_members_forward)
     (simp add: members_tidy_def mergeSegments_members_def)

section \<open>Segments with fewer than two coordinates\<close>

lemma inj_shift_index: "inj (shift_index p)"
  by (auto simp: inj_def shift_index_def split: if_splits)

lemma shift_index_neq: "p \<notin> shift_index p ` A"
  by (auto simp: shift_index_def)

lemma nth_shift_index:
  "(xs @ s # ys) ! shift_index (length xs) j = (xs @ ys) ! j"
  by (simp add: shift_index_def nth_append Suc_diff_le)

lemma upt_shift_index:
  assumes "p \<le> n"
  shows "[0..<Suc n] = map (shift_index p) [0..<p] @ p # map (shift_index p) [p..<n]"
proof -
  have a: "map (shift_index p) [0..<p] = [0..<p]"
    by (rule map_idI) (simp add: shift_index_def)
  have "map (shift_index p) [p..<n] = map Suc [p..<n]"
    by (rule map_cong) (simp_all add: shift_index_def)
  then have b: "map (shift_index p) [p..<n] = [Suc p..<Suc n]"
    by (simp only: map_Suc_upt)
  have "[0..<p + (Suc n - p)] = [0..<p] @ [p..<p + (Suc n - p)]"
    by (rule upt_add_eq_append) simp
  moreover have "p + (Suc n - p) = Suc n"
    using assms by simp
  ultimately have "[0..<Suc n] = [0..<p] @ [p..<Suc n]"
    by (simp only:)
  moreover have "[p..<Suc n] = p # [Suc p..<Suc n]"
    using assms by (intro upt_conv_Cons) simp
  ultimately show ?thesis
    by (simp only: a b)
qed

lemma upt_split:
  assumes "p \<le> n"
  shows "[0..<n] = [0..<p] @ [p..<n]"
proof -
  have "[0..<p + (n - p)] = [0..<p] @ [p..<p + (n - p)]"
    by (rule upt_add_eq_append) simp
  with assms show ?thesis by simp
qed

lemma filter_shift_index:
  assumes "p \<le> n" and "\<not> P' p" and "\<And>j. j < n \<Longrightarrow> P' (shift_index p j) \<longleftrightarrow> P j"
  shows "filter P' [0..<Suc n] = map (shift_index p) (filter P [0..<n])"
proof -
  have part: "filter P' (map (shift_index p) l) = map (shift_index p) (filter P l)"
    if "set l \<subseteq> {..<n}" for l
  proof -
    have "filter (P' \<circ> shift_index p) l = filter P l"
      using that assms(3) by (intro filter_cong) auto
    then show ?thesis
      by (simp add: filter_map)
  qed
  have p1: "filter P' (map (shift_index p) [0..<p]) = map (shift_index p) (filter P [0..<p])"
    using assms(1) by (intro part) auto
  have p2: "filter P' (map (shift_index p) [p..<n]) = map (shift_index p) (filter P [p..<n])"
    by (intro part) auto
  have "filter P' [0..<Suc n]
      = filter P' (map (shift_index p) [0..<p]) @ filter P' (map (shift_index p) [p..<n])"
    using assms(2) by (simp only: upt_shift_index [OF assms(1)] filter_append filter.simps if_False)
  also have "\<dots> = map (shift_index p) (filter P [0..<p]) @ map (shift_index p) (filter P [p..<n])"
    by (simp only: p1 p2)
  also have "\<dots> = map (shift_index p) (filter P ([0..<p] @ [p..<n]))"
    by simp
  finally show ?thesis
    by (simp only: upt_split [OF assms(1), symmetric])
qed

lemma start_candidates_insert:
  assumes "length s < 2"
  shows "start_candidates (xs @ s # ys) k
           = map (shift_index (length xs)) (start_candidates (xs @ ys) k)"
proof -
  have "filter (\<lambda>i. 2 \<le> length ((xs @ s # ys) ! i) \<and> coordKey (hd ((xs @ s # ys) ! i)) = k)
          [0..<Suc (length (xs @ ys))]
      = map (shift_index (length xs))
          (filter (\<lambda>i. 2 \<le> length ((xs @ ys) ! i) \<and> coordKey (hd ((xs @ ys) ! i)) = k)
             [0..<length (xs @ ys)])"
    using assms by (intro filter_shift_index) (simp_all add: nth_shift_index)
  then show ?thesis
    by (simp add: start_candidates_def)
qed

lemma end_candidates_insert:
  assumes "length s < 2"
  shows "end_candidates (xs @ s # ys) k
           = map (shift_index (length xs)) (end_candidates (xs @ ys) k)"
proof -
  have "filter (\<lambda>i. 2 \<le> length ((xs @ s # ys) ! i) \<and> coordKey (last ((xs @ s # ys) ! i)) = k)
          [0..<Suc (length (xs @ ys))]
      = map (shift_index (length xs))
          (filter (\<lambda>i. 2 \<le> length ((xs @ ys) ! i) \<and> coordKey (last ((xs @ ys) ! i)) = k)
             [0..<length (xs @ ys)])"
    using assms by (intro filter_shift_index) (simp_all add: nth_shift_index)
  then show ?thesis
    by (simp add: end_candidates_def)
qed

lemma find_unused_shift:
  "find_unused (shift_index p ` used) (map (shift_index p) cs)
     = map_option (shift_index p) (find_unused used cs)"
  by (induction cs) (simp_all add: inj_image_mem_iff [OF inj_shift_index])

lemma extend_ring_insert:
  assumes "length s < 2"
  shows "extend_ring (xs @ s # ys) (fst (build_indexes (xs @ s # ys)))
           (snd (build_indexes (xs @ s # ys))) n ring (shift_index (length xs) ` used)
         = apsnd ((`) (shift_index (length xs)))
             (extend_ring (xs @ ys) (fst (build_indexes (xs @ ys)))
                (snd (build_indexes (xs @ ys))) n ring used)"
proof (induction n arbitrary: ring used)
  case 0
  show ?case by simp
next
  case (Suc n)
  let ?f = "shift_index (length xs)"
  let ?S = "xs @ ys" and ?S' = "xs @ s # ys"
  let ?si = "fst (build_indexes ?S)" and ?ei = "snd (build_indexes ?S)"
  let ?si' = "fst (build_indexes ?S')" and ?ei' = "snd (build_indexes ?S')"
  have fs: "find_unused (?f ` used) (candidates ?si' k)
              = map_option ?f (find_unused used (candidates ?si k))" for k
    by (simp only: candidates_startIndex start_candidates_insert [OF assms] find_unused_shift)
  have fe: "find_unused (?f ` used) (candidates ?ei' k)
              = map_option ?f (find_unused used (candidates ?ei k))" for k
    by (simp only: candidates_endIndex end_candidates_insert [OF assms] find_unused_shift)
  show ?case
  proof (cases rule: extend_ring_cases [of ring ?S ?si ?ei n used])
    case closed
    then show ?thesis
      by (simp add: extend_ring_closed)
  next
    case (starts c)
    from starts(1,2) have "extend_ring ?S' ?si' ?ei' (Suc n) ring (?f ` used)
        = extend_ring ?S' ?si' ?ei' n (ring @ tl (?S' ! ?f c)) (insert (?f c) (?f ` used))"
      by (intro extend_ring_start) (simp_all add: fs)
    also have "\<dots> = extend_ring ?S' ?si' ?ei' n (ring @ tl (?S ! c)) (?f ` insert c used)"
      by (simp add: nth_shift_index)
    also have "\<dots> = apsnd ((`) ?f) (extend_ring ?S ?si ?ei n (ring @ tl (?S ! c)) (insert c used))"
      by (rule Suc.IH)
    finally show ?thesis
      by (simp only: starts(3))
  next
    case (ends c)
    from ends(1,2,3) have "extend_ring ?S' ?si' ?ei' (Suc n) ring (?f ` used)
        = extend_ring ?S' ?si' ?ei' n (ring @ tl (rev (?S' ! ?f c))) (insert (?f c) (?f ` used))"
      by (intro extend_ring_end) (simp_all add: fs fe)
    also have "\<dots> = extend_ring ?S' ?si' ?ei' n (ring @ tl (rev (?S ! c))) (?f ` insert c used)"
      by (simp add: nth_shift_index)
    also have "\<dots> = apsnd ((`) ?f)
        (extend_ring ?S ?si ?ei n (ring @ tl (rev (?S ! c))) (insert c used))"
      by (rule Suc.IH)
    finally show ?thesis
      by (simp only: ends(4))
  next
    case stuck
    from stuck(1,2,3) have "extend_ring ?S' ?si' ?ei' (Suc n) ring (?f ` used)
        = (if length ring > 10 then (Emitted (ring @ [hd ring]), ?f ` used)
           else (Discarded ring, ?f ` used))"
      by (intro extend_ring_stuck) (simp_all add: fs fe)
    then show ?thesis
      by (simp add: stuck(4))
  qed
qed

lemma visit_segment_insert:
  assumes "length s < 2"
  shows "visit_segment (xs @ s # ys) (fst (build_indexes (xs @ s # ys)))
           (snd (build_indexes (xs @ s # ys))) (shift_index (length xs) j)
           (apsnd ((`) (shift_index (length xs))) st)
         = apsnd ((`) (shift_index (length xs)))
             (visit_segment (xs @ ys) (fst (build_indexes (xs @ ys)))
                (snd (build_indexes (xs @ ys))) j st)"
proof -
  let ?f = "shift_index (length xs)"
  obtain rings used where st: "st = (rings, used)"
    by (cases st)
  obtain out u where e: "extend_ring (xs @ ys) (fst (build_indexes (xs @ ys)))
      (snd (build_indexes (xs @ ys))) maxIterations ((xs @ ys) ! j) (insert j used) = (out, u)"
    by (metis surj_pair)
  have e': "extend_ring (xs @ s # ys) (fst (build_indexes (xs @ s # ys)))
      (snd (build_indexes (xs @ s # ys))) maxIterations ((xs @ ys) ! j)
      (insert (?f j) (?f ` used)) = (out, ?f ` u)"
    using extend_ring_insert [OF assms, of xs ys maxIterations "(xs @ ys) ! j" "insert j used"] e
    by simp
  show ?thesis
    unfolding st
    by (cases out)
       (simp_all add: visit_segment_def Let_def nth_shift_index
          inj_image_mem_iff [OF inj_shift_index] e e')
qed

lemma visit_segment_short:
  "length s < 2 \<Longrightarrow> visit_segment (xs @ s # ys) si ei (length xs) st = st"
  by (simp add: visit_segment_def Let_def)

lemma fold_visit_segment_insert:
  assumes "length s < 2"
  shows "fold (visit_segment (xs @ s # ys) (fst (build_indexes (xs @ s # ys)))
           (snd (build_indexes (xs @ s # ys)))) (map (shift_index (length xs)) l)
           (apsnd ((`) (shift_index (length xs))) st)
         = apsnd ((`) (shift_index (length xs)))
             (fold (visit_segment (xs @ ys) (fst (build_indexes (xs @ ys)))
                (snd (build_indexes (xs @ ys)))) l st)"
  by (induction l arbitrary: st) (simp_all add: visit_segment_insert [OF assms])

lemma merge_state_insert:
  assumes "length s < 2"
  shows "merge_state (xs @ s # ys)
           = apsnd ((`) (shift_index (length xs))) (merge_state (xs @ ys))"
proof -
  let ?f = "shift_index (length xs)"
  let ?v' = "visit_segment (xs @ s # ys) (fst (build_indexes (xs @ s # ys)))
           (snd (build_indexes (xs @ s # ys)))"
  let ?v = "visit_segment (xs @ ys) (fst (build_indexes (xs @ ys)))
                (snd (build_indexes (xs @ ys)))"
  let ?n = "length (xs @ ys)"
  have le: "length xs \<le> ?n" by simp
  have "fold ?v' [0..<Suc ?n] ([], {})
      = fold ?v' (map ?f [length xs..<?n])
          (?v' (length xs) (fold ?v' (map ?f [0..<length xs]) (apsnd ((`) ?f) ([], {}))))"
    by (simp only: upt_shift_index [OF le] fold_append fold_simps comp_apply apsnd_conv image_empty)
  also have "\<dots> = fold ?v' (map ?f [length xs..<?n])
          (apsnd ((`) ?f) (fold ?v [0..<length xs] ([], {})))"
    by (simp only: fold_visit_segment_insert [OF assms] visit_segment_short [OF assms])
  also have "\<dots> = apsnd ((`) ?f) (fold ?v [length xs..<?n] (fold ?v [0..<length xs] ([], {})))"
    by (simp only: fold_visit_segment_insert [OF assms])
  also have "\<dots> = apsnd ((`) ?f) (fold ?v [0..<?n] ([], {}))"
    by (simp only: upt_split [OF le] fold_append comp_apply)
  finally show ?thesis
    by (simp add: merge_state_def Let_def)
qed

lemma members_subset_used:
  "set (concat (map snd (mergeSegments_members segs))) \<subseteq> snd (merge_state segs)"
proof -
  have "snd (forget_members (merge_state_members segs)) = snd (merge_state segs)"
    by (simp only: merge_state_members_forget)
  then show ?thesis
    using merge_state_members_tidy [of segs]
    by (simp add: members_tidy_def mergeSegments_members_def forget_members_def)
qed

text \<open>
  C8. A segment \<open>s\<close> with fewer than two coordinates, at any position \<open>length xs\<close> of
  the input, is in no list of either endpoint index, is never marked consumed, is
  recorded as a member of no produced ring, and the rings produced are those produced
  from the input without it.
\<close>

theorem short_segment_ignored:
  assumes "length s < 2"
  shows "length xs \<notin> set (candidates (fst (build_indexes (xs @ s # ys))) k)
       \<and> length xs \<notin> set (candidates (snd (build_indexes (xs @ s # ys))) k)
       \<and> length xs \<notin> snd (merge_state (xs @ s # ys))
       \<and> length xs \<notin> set (concat (map snd (mergeSegments_members (xs @ s # ys))))
       \<and> mergeSegments (xs @ s # ys) = mergeSegments (xs @ ys)"
proof -
  have a: "length xs \<notin> set (candidates (fst (build_indexes (xs @ s # ys))) k)"
    using assms start_candidates_in_range [of "length xs" "xs @ s # ys" k]
    by (auto simp: candidates_startIndex)
  have b: "length xs \<notin> set (candidates (snd (build_indexes (xs @ s # ys))) k)"
    using assms end_candidates_in_range [of "length xs" "xs @ s # ys" k]
    by (auto simp: candidates_endIndex)
  have c: "length xs \<notin> snd (merge_state (xs @ s # ys))"
    by (simp add: merge_state_insert [OF assms] shift_index_neq)
  have d: "length xs \<notin> set (concat (map snd (mergeSegments_members (xs @ s # ys))))"
    using c members_subset_used [of "xs @ s # ys"] by blast
  have e: "mergeSegments (xs @ s # ys) = mergeSegments (xs @ ys)"
    by (simp add: mergeSegments_def merge_state_insert [OF assms])
  from a b c d e show ?thesis by blast
qed

theorem short_segment_ignored_witness:
  "length [(7 :: rat, 7 :: rat)] < 2
   \<and> Suc 0 \<notin> snd (merge_state [[(0, 0), (1, 0), (1, 1)], [(7, 7)], [(1, 1), (0, 1), (0, 0)]])
   \<and> mergeSegments [[(0, 0), (1, 0), (1, 1)], [(7, 7)], [(1, 1), (0, 1), (0, 0)]]
       = [[(0, 0), (1, 0), (1, 1), (0, 1), (0, 0)]]"
  using short_segment_ignored [of "[(7, 7)]" "[[(0, 0), (1, 0), (1, 1)]]"
      "[[(1, 1), (0, 1), (0, 0)]]"] mergeSegments_forward
  by simp

section \<open>Rounding to a double\<close>

declare ilog2.simps(2) [simp del]

lemma ilog2_pos:
  "0 < n \<Longrightarrow> ilog2 n a =
     (if 2 \<le> a then ilog2 (n - 1) (a / 2) + 1
      else if a < 1 then ilog2 (n - 1) (a * 2) - 1
      else 0)"
  by (cases n) (simp_all add: ilog2.simps(2))

lemmas fl_eval =
  fl_def ulp_exponent_def round_even_def ilog2_pos Let_def floor_rat_numeral
  power_int_minus_divide

lemma powi_Suc: "(2::rat) powi (m + 1) = 2 * 2 powi m"
  by (simp add: power_int_add_1)

lemma powi_nat: "0 \<le> m \<Longrightarrow> (2::rat) powi m = of_int (2 ^ nat m)"
  by (simp add: power_int_def)

lemma powi_mono: "m \<le> n \<Longrightarrow> (2::rat) powi m \<le> 2 powi n"
  by (rule power_int_increasing) simp_all

lemma powi_less_cancel: "(2::rat) powi m < 2 powi n \<Longrightarrow> m < n"
  by (metis linorder_not_less powi_mono)

lemma ilog2_bounds:
  "2 powi (- int k) \<le> a \<Longrightarrow> a < 2 powi (int k + 1)
     \<Longrightarrow> 2 powi (ilog2 k a) \<le> a \<and> a < 2 powi (ilog2 k a + 1)"
proof (induction k arbitrary: a)
  case 0
  then show ?case by simp
next
  case (Suc k)
  show ?case
  proof (cases "2 \<le> a")
    case True
    have "(2::rat) powi (- int k) \<le> 2 powi 0"
      by (rule powi_mono) simp
    then have "2 powi (- int k) \<le> (1::rat)" by simp
    with True have lo: "2 powi (- int k) \<le> a / 2" by simp
    have "a < 2 * 2 powi (int k + 1)"
      using Suc.prems(2) powi_Suc [of "int k + 1"] by (simp add: add.commute)
    then have hi: "a / 2 < 2 powi (int k + 1)" by simp
    from Suc.IH [OF lo hi] True show ?thesis
      by (simp add: ilog2.simps(2) power_int_add)
  next
    case False
    show ?thesis
    proof (cases "a < 1")
      case True
      have "2 powi (- int (Suc k)) = (2::rat) powi (- int k) / 2"
        using powi_Suc [of "- int (Suc k)"] by simp
      with Suc.prems(1) have lo: "2 powi (- int k) \<le> a * 2" by simp
      have "(2::rat) powi 1 \<le> 2 powi (int k + 1)"
        by (rule powi_mono) simp
      with True have hi: "a * 2 < 2 powi (int k + 1)" by simp
      from Suc.IH [OF lo hi] True False show ?thesis
        by (simp add: ilog2.simps(2) power_int_add power_int_diff)
    next
      case False
      with \<open>\<not> 2 \<le> a\<close> show ?thesis
        by (simp add: ilog2.simps(2))
    qed
  qed
qed


lemma ulp_exponent_ge: "0 \<le> a \<Longrightarrow> a < 2 ^ 1024 \<Longrightarrow> - 1074 \<le> ulp_exponent a"
proof (cases "a < 2 powi (- 1022)")
  case True
  then show ?thesis by (simp add: ulp_exponent_def)
next
  case False
  assume a: "0 \<le> a" "a < 2 ^ 1024"
  have "(2::rat) powi (- int 1100) \<le> 2 powi (- 1022)"
    by (rule powi_mono) simp
  with False have lo: "2 powi (- int 1100) \<le> a" by simp
  have "(2::rat) ^ 1024 = 2 powi 1024" by simp
  also have "\<dots> \<le> 2 powi (int 1100 + 1)"
    by (rule powi_mono) simp
  finally have hi: "a < 2 powi (int 1100 + 1)"
    using a(2) by simp
  from ilog2_bounds [OF lo hi] False have "2 powi (- 1022) < (2::rat) powi (ilog2 1100 a + 1)"
    by simp
  then have "- 1022 < ilog2 1100 a + 1"
    by (rule powi_less_cancel)
  with False show ?thesis
    by (simp add: ulp_exponent_def)
qed

lemma ulp_exponent_normal:
  assumes "2 powi (- 1022) \<le> a" and "a < 2 ^ 1024"
  shows "2 powi (ulp_exponent a + 52) \<le> a \<and> a < 2 powi (ulp_exponent a + 53)"
proof -
  have "(2::rat) powi (- int 1100) \<le> 2 powi (- 1022)"
    by (rule powi_mono) simp
  with assms(1) have lo: "2 powi (- int 1100) \<le> a" by simp
  have "(2::rat) ^ 1024 = 2 powi 1024" by simp
  also have "\<dots> \<le> 2 powi (int 1100 + 1)"
    by (rule powi_mono) simp
  finally have hi: "a < 2 powi (int 1100 + 1)"
    using assms(2) by simp
  from ilog2_bounds [OF lo hi] assms(1) show ?thesis
    by (simp add: ulp_exponent_def add.commute)
qed

lemma round_even_of_int: "round_even (of_int k) = k"
  by (simp add: round_even_def)

lemma round_even_nonneg: "0 \<le> y \<Longrightarrow> 0 \<le> round_even y"
  by (auto simp: round_even_def Let_def)

lemma round_even_ge_1: "1 \<le> y \<Longrightarrow> 1 \<le> round_even y"
proof -
  assume "1 \<le> y"
  then have "1 \<le> \<lfloor>y\<rfloor>" by simp
  then show ?thesis by (auto simp: round_even_def Let_def)
qed

lemma fl_finite:
  assumes "\<bar>x\<bar> < 2 ^ 1024"
    and "of_int (round_even (\<bar>x\<bar> / 2 powi ulp_exponent \<bar>x\<bar>)) * 2 powi ulp_exponent \<bar>x\<bar> = \<bar>x\<bar>"
  shows "fl x = Fin x"
  using assms by (auto simp: fl_def Let_def)

lemma fl_exact:
  assumes n: "\<bar>n\<bar> \<le> 2 ^ 53" and q: "- 1074 \<le> q" "q \<le> 970"
  shows "fl (of_int n * 2 powi q) = Fin (of_int n * 2 powi q)"
proof -
  define a :: rat where "a = of_int \<bar>n\<bar> * 2 powi q"
  have ax: "\<bar>of_int n * 2 powi q :: rat\<bar> = a"
    by (simp add: a_def abs_mult)
  have "(of_int \<bar>n\<bar> :: rat) \<le> of_int (2 ^ 53)"
    using n by (simp only: of_int_le_iff)
  then have n': "(of_int \<bar>n\<bar> :: rat) \<le> 2 ^ 53"
    by simp
  have "a \<le> 2 ^ 53 * 2 powi q"
    unfolding a_def using n' by (intro mult_right_mono) simp_all
  also have "\<dots> = 2 powi (53 + q)"
    by (simp add: power_int_add)
  finally have a53: "a \<le> 2 powi (53 + q)" .
  also have "\<dots> \<le> 2 powi 1023"
    using q by (intro powi_mono) simp
  also have "\<dots> < 2 powi 1024"
    by (rule power_int_strict_increasing) simp_all
  finally have small: "a < 2 ^ 1024" by simp
  have a0: "0 \<le> a" by (simp add: a_def)
  let ?u = "ulp_exponent a"
  have "\<exists>k :: int. a / 2 powi ?u = of_int k"
  proof (cases "?u \<le> q")
    case True
    have "a / 2 powi ?u = of_int \<bar>n\<bar> * 2 powi (q - ?u)"
      by (simp add: a_def power_int_diff)
    also have "\<dots> = of_int (\<bar>n\<bar> * 2 ^ nat (q - ?u))"
      using True by (simp add: powi_nat)
    finally show ?thesis by blast
  next
    case False
    then have sub: "\<not> a < 2 powi (- 1022)"
      using q by (auto simp: ulp_exponent_def)
    with ulp_exponent_normal [OF _ small] have lo: "2 powi (?u + 52) \<le> a" by simp
    with a53 have "(2::rat) powi (?u + 52) \<le> 2 powi (53 + q)" by simp
    then have "?u + 52 \<le> 53 + q"
      by (metis linorder_not_less power_int_strict_increasing one_less_numeral_iff semiring_norm(76))
    with False have u: "?u = q + 1" by simp
    from lo have "2 powi (q + 1 + 52) \<le> a"
      by (simp only: u)
    then have "2 powi (q + 53) \<le> a"
      by (simp add: add.assoc)
    then have "2 powi (q + 53) \<le> of_int \<bar>n\<bar> * (2::rat) powi q"
      by (simp only: a_def)
    then have "2 ^ 53 * 2 powi q \<le> of_int \<bar>n\<bar> * (2::rat) powi q"
      by (simp add: power_int_add)
    then have "(2::rat) ^ 53 \<le> of_int \<bar>n\<bar>"
      by (simp add: mult_le_cancel_right)
    then have "(of_int (2 ^ 53) :: rat) \<le> of_int \<bar>n\<bar>"
      by simp
    then have "2 ^ 53 \<le> \<bar>n\<bar>"
      by (simp only: of_int_le_iff)
    with n have "\<bar>n\<bar> = 2 ^ 53" by simp
    then have "a = 2 ^ 53 * 2 powi q"
      by (simp add: a_def)
    moreover have "(2::rat) powi ?u = 2 * 2 powi q"
      by (simp only: u powi_Suc)
    ultimately have "a / 2 powi ?u = of_int (2 ^ 52)"
      by simp
    then show ?thesis by blast
  qed
  then obtain k :: int where k: "a / 2 powi ?u = of_int k" ..
  then have "of_int (round_even (a / 2 powi ?u)) * 2 powi ?u = a"
    by (simp add: round_even_of_int) (metis k nonzero_divide_eq_eq power_int_eq_0_iff zero_neq_numeral)
  then show ?thesis
    using small by (intro fl_finite) (simp_all add: ax)
qed


lemma on_grid_int: "- 1074 \<le> u \<Longrightarrow> on_grid (of_int k * 2 powi u)"
proof -
  assume u: "- 1074 \<le> u"
  have "(2::rat) powi u = 2 powi (u + 1074) * 2 powi (- 1074)"
    by (simp add: power_int_add flip: power_int_minus_divide)
  also have "(2::rat) powi (u + 1074) = of_int (2 ^ nat (u + 1074))"
    using u by (intro powi_nat) simp
  finally have "of_int k * (2::rat) powi u = of_int (k * 2 ^ nat (u + 1074)) * 2 powi (- 1074)"
    by simp
  then show ?thesis
    unfolding on_grid_def by blast
qed

lemma on_grid_minus: "on_grid r \<Longrightarrow> on_grid (- r)"
  unfolding on_grid_def by (metis mult_minus_left of_int_minus)

lemma on_grid_abs: "on_grid r \<Longrightarrow> on_grid \<bar>r\<bar>"
  by (cases "r < 0") (simp_all add: on_grid_minus)

lemma on_grid_diff:
  assumes "on_grid a" and "on_grid b" and "a < b"
  shows "2 powi (- 1074) \<le> b - a"
proof -
  from assms(1,2) obtain k l :: int
    where a: "a = of_int k * 2 powi (- 1074)" and b: "b = of_int l * 2 powi (- 1074)"
    unfolding on_grid_def by blast
  have pos: "(0::rat) < 2 powi (- 1074)"
    by (rule zero_less_power_int) simp
  from assms(3) have "(of_int k :: rat) < of_int l"
    unfolding a b using pos by (simp only: mult_less_cancel_right_pos)
  then have "k < l" by (simp only: of_int_less_iff)
  then have "1 \<le> l - k" by simp
  then have "(of_int 1 :: rat) \<le> of_int (l - k)"
    by (simp only: of_int_le_iff)
  then have "(1::rat) * 2 powi (- 1074) \<le> of_int (l - k) * 2 powi (- 1074)"
    using pos by (intro mult_right_mono) simp_all
  then show ?thesis
    by (simp add: a b left_diff_distrib)
qed

lemma fl_shape:
  "fl x = PInf \<and> 0 < x \<or> fl x = NInf \<and> x < 0
   \<or> (\<exists>r. fl x = Fin r \<and> on_grid r \<and> (0 \<le> x \<longrightarrow> 0 \<le> r) \<and> (x \<le> 0 \<longrightarrow> r \<le> 0))"
proof (cases "2 ^ 1024 \<le> \<bar>x\<bar>")
  case True
  then show ?thesis
    by (auto simp: fl_def)
next
  case small: False
  define u where "u = ulp_exponent \<bar>x\<bar>"
  define k where "k = round_even (\<bar>x\<bar> / 2 powi u)"
  define r where "r = (of_int k :: rat) * 2 powi u"
  have u: "- 1074 \<le> u"
    using small unfolding u_def by (intro ulp_exponent_ge) simp_all
  have "0 \<le> \<bar>x\<bar> / 2 powi u"
    by simp
  then have k: "0 \<le> k"
    unfolding k_def by (rule round_even_nonneg)
  then have r: "0 \<le> r"
    by (simp add: r_def)
  have grid: "on_grid r"
    unfolding r_def using u by (rule on_grid_int)
  have zero: "r = 0" if "x = 0"
    using that by (simp add: r_def k_def round_even_def)
  have fl: "fl x = (if 2 ^ 1024 \<le> r then (if x < 0 then NInf else PInf)
                    else Fin (if x < 0 then - r else r))"
    using small by (simp add: fl_def Let_def r_def k_def u_def)
  show ?thesis
  proof (cases "2 ^ 1024 \<le> r")
    case True
    then have "r \<noteq> 0" by auto
    with zero have "x \<noteq> 0" by blast
    with True fl show ?thesis by auto
  next
    case False
    show ?thesis
    proof (cases "x < 0")
      case True
      with False fl r grid show ?thesis
        by (auto simp: on_grid_minus)
    next
      case nonneg: False
      with False fl r grid zero show ?thesis
        by (cases "x = 0") auto
    qed
  qed
qed

lemma fl_pos:
  assumes "2 powi (- 1074) \<le> x"
  shows "fl x = PInf \<or> (\<exists>r. fl x = Fin r \<and> 0 < r)"
proof (cases "2 ^ 1024 \<le> \<bar>x\<bar>")
  case True
  have "(0::rat) < 2 powi (- 1074)"
    by (rule zero_less_power_int) simp
  with assms have "0 < x" by simp
  with True show ?thesis
    by (auto simp: fl_def)
next
  case small: False
  have p: "(0::rat) < 2 powi (- 1074)"
    by (rule zero_less_power_int) simp
  with assms have x: "0 < x" by simp
  define u where "u = ulp_exponent \<bar>x\<bar>"
  define k where "k = round_even (\<bar>x\<bar> / 2 powi u)"
  define r where "r = (of_int k :: rat) * 2 powi u"
  have pu: "(0::rat) < 2 powi u"
    by (rule zero_less_power_int) simp
  have "2 powi u \<le> \<bar>x\<bar>"
  proof (cases "\<bar>x\<bar> < 2 powi (- 1022)")
    case True
    then have "u = - 1074" by (simp add: u_def ulp_exponent_def)
    with assms x show ?thesis by simp
  next
    case False
    with small have "2 powi (u + 52) \<le> \<bar>x\<bar>"
      unfolding u_def by (intro ulp_exponent_normal [THEN conjunct1]) simp_all
    moreover have "(2::rat) powi u \<le> 2 powi (u + 52)"
      by (rule powi_mono) simp
    ultimately show ?thesis by simp
  qed
  then have "1 \<le> \<bar>x\<bar> / 2 powi u"
    using pu by (simp add: pos_le_divide_eq)
  then have "1 \<le> k"
    unfolding k_def by (rule round_even_ge_1)
  then have "(0::rat) < of_int k" by simp
  then have r: "0 < r"
    using pu by (simp add: r_def)
  have "fl x = (if 2 ^ 1024 \<le> r then PInf else Fin r)"
    using small x by (simp add: fl_def Let_def r_def k_def u_def)
  with r show ?thesis by auto
qed
section \<open>The shoelace area in double arithmetic\<close>



lemma fabs_fhalf_shape:
  "fabs (fhalf X) = NaN \<or> fabs (fhalf X) = PInf
   \<or> (\<exists>r. fabs (fhalf X) = Fin r \<and> 0 \<le> r \<and> on_grid r)"
proof (cases X)
  case (Fin a)
  from fl_shape [of "a / 2"] consider "fl (a / 2) = PInf" | "fl (a / 2) = NInf"
    | r where "fl (a / 2) = Fin r" "on_grid r"
    by blast
  then show ?thesis
  proof cases
    case 3
    then have "fabs (fhalf X) = Fin \<bar>r\<bar>" "on_grid \<bar>r\<bar>"
      by (simp_all add: Fin on_grid_abs)
    then show ?thesis by simp
  qed (simp_all add: Fin)
qed simp_all

lemma calculateRingArea_shape:
  "calculateRingArea ring = NaN \<or> calculateRingArea ring = PInf
   \<or> (\<exists>r. calculateRingArea ring = Fin r \<and> 0 \<le> r \<and> on_grid r)"
  unfolding calculateRingArea_def by (rule fabs_fhalf_shape)

lemma fl_of_int: "\<bar>n\<bar> \<le> 2 ^ 53 \<Longrightarrow> fl (of_int n) = Fin (of_int n)"
  using fl_exact [of n 0] by simp

lemma fl_half_int: "\<bar>n\<bar> \<le> 2 ^ 53 \<Longrightarrow> fl (of_int n / 2) = Fin (of_int n / 2)"
  using fl_exact [of n "- 1"] by (simp add: power_int_minus_divide)


lemma fadd_int:
  "\<bar>a + b\<bar> \<le> 2 ^ 53 \<Longrightarrow> fadd (Fin (of_int a)) (Fin (of_int b)) = Fin (of_int (a + b))"
  using fl_of_int [of "a + b"] by simp

lemma fsub_int:
  "\<bar>a - b\<bar> \<le> 2 ^ 53 \<Longrightarrow> fsub (Fin (of_int a)) (Fin (of_int b)) = Fin (of_int (a - b))"
  using fl_of_int [of "a - b"] by (simp add: fsub_def)

lemma fold_area_step_exact:
  assumes coords: "\<forall>p \<in> set ring. fst p \<in> \<int> \<and> snd p \<in> \<int>
                     \<and> \<bar>fst p\<bar> \<le> of_nat B \<and> \<bar>snd p\<bar> \<le> of_nat B"
    and bound: "2 * length ring * B\<^sup>2 \<le> 2 ^ 53"
  shows "n \<le> length ring - 1 \<Longrightarrow>
         \<exists>s :: int. \<bar>s\<bar> \<le> int (2 * n * B\<^sup>2)
           \<and> (\<Sum>i = 0..<n. fst (ring ! i) * snd (ring ! (i + 1))
                              - fst (ring ! (i + 1)) * snd (ring ! i)) = of_int s
           \<and> fold (area_step ring) [0..<n] (Fin 0) = Fin (of_int s)"
proof (induction n)
  case 0
  show ?case by (intro exI [of _ 0]) simp
next
  case (Suc n)
  then obtain s :: int where s: "\<bar>s\<bar> \<le> int (2 * n * B\<^sup>2)"
    and sum: "(\<Sum>i = 0..<n. fst (ring ! i) * snd (ring ! (i + 1))
                              - fst (ring ! (i + 1)) * snd (ring ! i)) = of_int s"
    and fold: "fold (area_step ring) [0..<n] (Fin 0) = Fin (of_int s)"
    by auto
  from Suc.prems have "ring ! n \<in> set ring" "ring ! Suc n \<in> set ring"
    by simp_all
  with coords obtain x0 y0 x1 y1 :: int
    where c: "fst (ring ! n) = of_int x0" "snd (ring ! n) = of_int y0"
      "fst (ring ! Suc n) = of_int x1" "snd (ring ! Suc n) = of_int y1"
    and b: "\<bar>x0\<bar> \<le> int B" "\<bar>y0\<bar> \<le> int B" "\<bar>x1\<bar> \<le> int B" "\<bar>y1\<bar> \<le> int B"
  proof -
    assume r: "\<And>x0 y0 x1 y1. fst (ring ! n) = of_int x0 \<Longrightarrow> snd (ring ! n) = of_int y0
      \<Longrightarrow> fst (ring ! Suc n) = of_int x1 \<Longrightarrow> snd (ring ! Suc n) = of_int y1
      \<Longrightarrow> \<bar>x0\<bar> \<le> int B \<Longrightarrow> \<bar>y0\<bar> \<le> int B \<Longrightarrow> \<bar>x1\<bar> \<le> int B \<Longrightarrow> \<bar>y1\<bar> \<le> int B \<Longrightarrow> thesis"
    from coords \<open>ring ! n \<in> set ring\<close> \<open>ring ! Suc n \<in> set ring\<close>
    obtain x0 y0 x1 y1 :: int where c: "fst (ring ! n) = of_int x0" "snd (ring ! n) = of_int y0"
      "fst (ring ! Suc n) = of_int x1" "snd (ring ! Suc n) = of_int y1"
      by (metis Ints_cases)
    from coords \<open>ring ! n \<in> set ring\<close> \<open>ring ! Suc n \<in> set ring\<close>
    have "\<bar>fst (ring ! n)\<bar> \<le> of_nat B" "\<bar>snd (ring ! n)\<bar> \<le> of_nat B"
      "\<bar>fst (ring ! Suc n)\<bar> \<le> of_nat B" "\<bar>snd (ring ! Suc n)\<bar> \<le> of_nat B"
      by blast+
    then have "(of_int \<bar>x0\<bar> :: rat) \<le> of_int (int B)" "(of_int \<bar>y0\<bar> :: rat) \<le> of_int (int B)"
      "(of_int \<bar>x1\<bar> :: rat) \<le> of_int (int B)" "(of_int \<bar>y1\<bar> :: rat) \<le> of_int (int B)"
      by (simp_all add: c)
    then have "\<bar>x0\<bar> \<le> int B" "\<bar>y0\<bar> \<le> int B" "\<bar>x1\<bar> \<le> int B" "\<bar>y1\<bar> \<le> int B"
      by (simp_all only: of_int_le_iff)
    with c show thesis by (rule r)
  qed
  have sq: "int B * int B = int (B\<^sup>2)"
    by (simp add: power2_eq_square)
  have "\<bar>x0\<bar> * \<bar>y1\<bar> \<le> int B * int B" "\<bar>x1\<bar> * \<bar>y0\<bar> \<le> int B * int B"
    using b by (intro mult_mono; simp)+
  then have p: "\<bar>x0 * y1\<bar> \<le> int (B\<^sup>2)" and p': "\<bar>x1 * y0\<bar> \<le> int (B\<^sup>2)"
    by (simp_all only: abs_mult sq)
  from Suc.prems have "2 * Suc n * B\<^sup>2 \<le> 2 * length ring * B\<^sup>2"
    by (intro mult_le_mono) simp_all
  with bound have "2 * Suc n * B\<^sup>2 \<le> 2 ^ 53"
    by (rule le_trans [rotated])
  then have "int (2 * Suc n * B\<^sup>2) \<le> int (2 ^ 53)"
    by (simp only: of_nat_le_iff)
  then have big: "int (2 * n * B\<^sup>2) + 2 * int (B\<^sup>2) \<le> 2 ^ 53"
    by (simp add: algebra_simps)
  have b0: "\<bar>x0 * y1\<bar> \<le> 2 ^ 53" using p big by linarith
  have b1: "\<bar>s + x0 * y1\<bar> \<le> 2 ^ 53" using s p big by linarith
  have b2: "\<bar>x1 * y0\<bar> \<le> 2 ^ 53" using p' big by linarith
  have b3: "\<bar>s + x0 * y1 - x1 * y0\<bar> \<le> 2 ^ 53" using s p p' big by linarith
  have b4: "\<bar>s + x0 * y1 - x1 * y0\<bar> \<le> int (2 * Suc n * B\<^sup>2)"
    using s p p' by (simp add: algebra_simps)
  have "area_step ring n (Fin (of_int s))
      = fsub (fadd (Fin (of_int s)) (fl (of_int (x0 * y1)))) (fl (of_int (x1 * y0)))"
    by (simp add: area_step_def c)
  also have "\<dots> = Fin (of_int (s + x0 * y1 - x1 * y0))"
    by (simp only: fl_of_int [OF b0] fl_of_int [OF b2] fadd_int [OF b1] fsub_int [OF b3])
  finally have "area_step ring n (Fin (of_int s)) = Fin (of_int (s + x0 * y1 - x1 * y0))" .
  then have "fold (area_step ring) [0..<Suc n] (Fin 0) = Fin (of_int (s + x0 * y1 - x1 * y0))"
    by (simp add: fold)
  moreover have "(\<Sum>i = 0..<Suc n. fst (ring ! i) * snd (ring ! (i + 1))
                              - fst (ring ! (i + 1)) * snd (ring ! i))
      = of_int (s + x0 * y1 - x1 * y0)"
    using c sum by simp
  ultimately show ?case
    using b4 by blast
qed

lemma calculateRingArea_exact:
  assumes "\<forall>p \<in> set ring. fst p \<in> \<int> \<and> snd p \<in> \<int>
                     \<and> \<bar>fst p\<bar> \<le> of_nat B \<and> \<bar>snd p\<bar> \<le> of_nat B"
    and "2 * length ring * B\<^sup>2 \<le> 2 ^ 53"
  shows "calculateRingArea ring = Fin (\<bar>shoelace_sum ring\<bar> / 2)"
proof -
  from fold_area_step_exact [OF assms, of "length ring - 1"]
  obtain s :: int where s: "\<bar>s\<bar> \<le> int (2 * (length ring - 1) * B\<^sup>2)"
    and sum: "shoelace_sum ring = of_int s"
    and fold: "fold (area_step ring) [0..<length ring - 1] (Fin 0) = Fin (of_int s)"
    unfolding shoelace_sum_def by auto
  have "2 * (length ring - 1) * B\<^sup>2 \<le> 2 * length ring * B\<^sup>2"
    by (intro mult_le_mono) simp_all
  with assms(2) have "2 * (length ring - 1) * B\<^sup>2 \<le> 2 ^ 53"
    by (rule le_trans [rotated])
  then have "int (2 * (length ring - 1) * B\<^sup>2) \<le> int (2 ^ 53)"
    by (simp only: of_nat_le_iff)
  with s have "\<bar>s\<bar> \<le> 2 ^ 53" by simp
  then have "fl (of_int s / 2) = Fin (of_int s / 2)"
    by (rule fl_half_int)
  then show ?thesis
    unfolding calculateRingArea_def fold sum by simp
qed






section \<open>Significance filter, ranking and truncation\<close>

lemma fl_nonpos: "x \<le> 0 \<Longrightarrow> \<not> comparator_positive (fl x)"
  using fl_shape [of x] by auto

lemma fl_grid_pos: "2 powi (- 1074) \<le> x \<Longrightarrow> comparator_positive (fl x)"
  using fl_pos [of x] by auto

lemma comparator_positive_fsub:
  assumes "area_value A" and "area_value B"
  shows "comparator_positive (fsub B A) \<longleftrightarrow> fgt B A"
proof -
  from assms consider "A = PInf" "B = PInf"
    | a where "A = Fin a" "B = PInf"
    | b where "A = PInf" "B = Fin b"
    | a b where "A = Fin a" "B = Fin b" "on_grid a" "on_grid b"
    unfolding area_value_def by blast
  then show ?thesis
  proof cases
    case 4
    show ?thesis
    proof (cases "a < b")
      case True
      then have "2 powi (- 1074) \<le> b - a"
        using 4 by (intro on_grid_diff)
      then have "comparator_positive (fl (b - a))"
        by (rule fl_grid_pos)
      with True 4 show ?thesis
        by (simp add: fsub_def)
    next
      case False
      then have "\<not> comparator_positive (fl (b - a))"
        by (intro fl_nonpos) simp
      with False 4 show ?thesis
        by (simp add: fsub_def)
    qed
  qed (simp_all add: fsub_def)
qed

lemma area_value_calculateRingArea:
  "calculateRingArea ring \<noteq> NaN \<Longrightarrow> area_value (calculateRingArea ring)"
  using calculateRingArea_shape [of ring] by (auto simp: area_value_def)

lemma fgt_not_NaN: "fgt X Y \<Longrightarrow> X \<noteq> NaN"
  by (cases X) auto

lemma significant_area_value:
  "fgt (calculateRingArea ring) T \<Longrightarrow> area_value (calculateRingArea ring)"
  by (intro area_value_calculateRingArea fgt_not_NaN)

lemma descending_key_le:
  assumes "area_value (calculateRingArea x)" and "area_value (calculateRingArea y)"
  shows "descending_key x \<le> descending_key y
           \<longleftrightarrow> fle (calculateRingArea y) (calculateRingArea x)"
  using assms
  by (auto simp: area_value_def descending_key_def fle_def)

lemma insert_sorted_insort_key:
  assumes "area_value (calculateRingArea x)"
    and "\<forall>y \<in> set ys. area_value (calculateRingArea y)"
  shows "insert_sorted area_comparator x ys = insort_key descending_key x ys"
  using assms(2)
proof (induction ys)
  case Nil
  show ?case by simp
next
  case (Cons y ys)
  then have y: "area_value (calculateRingArea y)" by simp
  have "comparator_positive (area_comparator x y) \<longleftrightarrow> \<not> descending_key x \<le> descending_key y"
    unfolding area_comparator_def
    using comparator_positive_fsub [OF assms(1) y] descending_key_le [OF assms(1) y]
      assms(1) y
    by (auto simp: fle_def area_value_def)
  with Cons show ?case by simp
qed

lemma array_sort_sort_key:
  "\<forall>x \<in> set xs. area_value (calculateRingArea x)
     \<Longrightarrow> array_sort area_comparator xs = sort_key descending_key xs"
proof (induction xs)
  case Nil
  show ?case by (simp add: array_sort_def)
next
  case (Cons x xs)
  then have "array_sort area_comparator xs = sort_key descending_key xs" by simp
  moreover have "insert_sorted area_comparator x (sort_key descending_key xs)
      = insort_key descending_key x (sort_key descending_key xs)"
    using Cons.prems by (intro insert_sorted_insort_key) simp_all
  ultimately show ?case
    by (simp add: array_sort_def sort_key_def)
qed

lemma sortedByArea_significant:
  "sortedByArea (significantRings rings) = sort_key descending_key (significantRings rings)"
  unfolding sortedByArea_def
  by (rule array_sort_sort_key) (auto simp: significantRings_def intro: significant_area_value)


lemma feature_ring_land_feature: "feature_ring (land_feature (i, r)) = r"
  by (simp add: feature_ring_def land_feature_def)

lemma map_ring_land_features:
  "map feature_ring (map land_feature (enumerate n rs)) = rs"
proof -
  have "feature_ring \<circ> land_feature = snd"
    by (auto simp: fun_eq_iff feature_ring_def land_feature_def)
  then have "map feature_ring (map land_feature (enumerate n rs)) = map snd (enumerate n rs)"
    by simp
  then show ?thesis by simp
qed

lemma threshold_value: "fl (1 / 10000) = Fin (7378697629483821 / 73786976294838206464)"
  by (simp add: fl_eval)

lemma above_threshold:
  "fgt X (fl (1 / 10000)) \<Longrightarrow> X = Fin a \<Longrightarrow> 1 / 10000 < a"
  by (simp add: threshold_value)

lemma set_significantRings:
  "r \<in> set (significantRings rings) \<longleftrightarrow>
     r \<in> set rings \<and> fgt (calculateRingArea r) (fl (1 / 10000))"
  by (auto simp: significantRings_def)

lemma processCoastlineData_rings:
  "map feature_ring (processCoastlineData elements)
     = take 50 (sort_key descending_key
         (significantRings (mergeSegments (extract_segments elements))))"
proof -
  have "processCoastlineData elements
      = map land_feature (enumerate 0 (take 50 (sort_key descending_key
         (significantRings (mergeSegments (extract_segments elements))))))"
    by (simp add: processCoastlineData_def mainLandFeatures_def sortedByArea_significant)
  then show ?thesis
    by (simp only: map_ring_land_features)
qed

lemma ranked_descending:
  assumes "sorted (map descending_key xs)"
    and "\<forall>x \<in> set xs. area_value (calculateRingArea x)"
  shows "sorted_wrt (\<lambda>x y. fle (calculateRingArea y) (calculateRingArea x)) xs"
proof -
  from assms(1) have "sorted_wrt (\<lambda>x y. descending_key x \<le> descending_key y) xs"
    by (simp add: sorted_wrt_map)
  then show ?thesis
  proof (rule sorted_wrt_mono_rel [rotated])
    fix x y
    assume "x \<in> set xs" "y \<in> set xs" "descending_key x \<le> descending_key y"
    with assms(2) show "fle (calculateRingArea y) (calculateRingArea x)"
      by (simp add: descending_key_le)
  qed
qed

text \<open>
  C4. The threshold is the double written \<^verbatim>\<open>0.0001\<close>, which is slightly above
  \<open>1/10000\<close>.  The rings of the features written by \<open>processCoastlineData\<close> are the
  first 50 of the rings of \<open>mergeSegments\<close> whose computed area is above the threshold,
  taken in descending order of computed area (rings of equal area in their order of
  production).  So there are \<open>min 50 k\<close> of them, where \<open>k\<close> is the number of rings above
  the threshold; they are in descending order of computed area; each has a computed
  area above the threshold (hence a finite area is strictly above \<open>1/10000\<close>), which is
  the area recorded in the feature; and they are the largest: the rings above the
  threshold are the rings written together with a remainder, none of which has a
  larger area than a ring written.
\<close>

theorem land_mass_set:
  "fl (1 / 10000) = Fin (7378697629483821 / 73786976294838206464)
   \<and> map feature_ring (processCoastlineData elements)
       = take 50 (sort_key descending_key
           (filter (\<lambda>r. fgt (calculateRingArea r) (fl (1 / 10000)))
              (mergeSegments (extract_segments elements))))
   \<and> length (processCoastlineData elements)
     = min 50 (length (filter (\<lambda>r. fgt (calculateRingArea r) (fl (1 / 10000)))
                 (mergeSegments (extract_segments elements))))
   \<and> length (processCoastlineData elements) \<le> 50
   \<and> sorted_wrt (\<lambda>f g. fle (calculateRingArea (feature_ring g))
                          (calculateRingArea (feature_ring f)))
        (processCoastlineData elements)
   \<and> (\<forall>f \<in> set (processCoastlineData elements).
         fgt (calculateRingArea (feature_ring f)) (fl (1 / 10000))
         \<and> (\<forall>a. calculateRingArea (feature_ring f) = Fin a \<longrightarrow> 1 / 10000 < a)
         \<and> feature_ring f \<in> set (mergeSegments (extract_segments elements))
         \<and> coordinates (geometry f) = [feature_ring f]
         \<and> properties f ''area'' = Some (json_number (calculateRingArea (feature_ring f))))
   \<and> (\<exists>rest.
         mset (map feature_ring (processCoastlineData elements)) + mset rest
           = mset (filter (\<lambda>r. fgt (calculateRingArea r) (fl (1 / 10000)))
                     (mergeSegments (extract_segments elements)))
         \<and> (\<forall>f \<in> set (processCoastlineData elements). \<forall>r \<in> set rest.
               fle (calculateRingArea r) (calculateRingArea (feature_ring f))))"
proof -
  let ?rings = "mergeSegments (extract_segments elements)"
  let ?S = "significantRings ?rings"
  let ?L = "sort_key descending_key ?S"
  let ?out = "processCoastlineData elements"
  have S: "?S = filter (\<lambda>r. fgt (calculateRingArea r) (fl (1 / 10000))) ?rings"
    by (simp add: significantRings_def)
  have rings: "map feature_ring ?out = take 50 ?L"
    by (rule processCoastlineData_rings)
  have out: "?out = map land_feature (enumerate 0 (take 50 ?L))"
    by (simp add: processCoastlineData_def mainLandFeatures_def sortedByArea_significant)
  have valid: "\<forall>x \<in> set ?L. area_value (calculateRingArea x)"
    by (auto simp: set_significantRings intro: significant_area_value)
  have "length ?out = length (map feature_ring ?out)"
    by simp
  then have len: "length ?out = min 50 (length ?S)"
    by (simp only: rings) (simp add: min.commute)
  have sortedL: "sorted_wrt (\<lambda>x y. fle (calculateRingArea y) (calculateRingArea x)) ?L"
    using valid by (intro ranked_descending) simp_all
  then have "sorted_wrt (\<lambda>x y. fle (calculateRingArea y) (calculateRingArea x)) (take 50 ?L)"
    by (rule sorted_wrt_take)
  then have "sorted_wrt (\<lambda>x y. fle (calculateRingArea y) (calculateRingArea x))
               (map feature_ring ?out)"
    by (simp only: rings)
  then have sorted: "sorted_wrt (\<lambda>f g. fle (calculateRingArea (feature_ring g))
                          (calculateRingArea (feature_ring f))) ?out"
    by (simp only: sorted_wrt_map)
  have each: "fgt (calculateRingArea (feature_ring f)) (fl (1 / 10000))
         \<and> (\<forall>a. calculateRingArea (feature_ring f) = Fin a \<longrightarrow> 1 / 10000 < a)
         \<and> feature_ring f \<in> set ?rings
         \<and> coordinates (geometry f) = [feature_ring f]
         \<and> properties f ''area'' = Some (json_number (calculateRingArea (feature_ring f)))"
    if "f \<in> set ?out" for f
  proof -
    from that obtain i r where f: "f = land_feature (i, r)"
      and "(i, r) \<in> set (enumerate 0 (take 50 ?L))"
      unfolding out by auto
    then have "r \<in> snd ` set (enumerate 0 (take 50 ?L))"
      by force
    then have "r \<in> set (map snd (enumerate 0 (take 50 ?L)))"
      by (simp only: set_map)
    then have "r \<in> set (take 50 ?L)"
      by (simp only: map_snd_enumerate)
    then have "r \<in> set ?S"
      using set_take_subset [of 50 ?L] by auto
    then have r: "r \<in> set ?rings" "fgt (calculateRingArea r) (fl (1 / 10000))"
      by (simp_all add: set_significantRings)
    then have "\<forall>a. calculateRingArea r = Fin a \<longrightarrow> 1 / 10000 < a"
      using above_threshold by blast
    with r show ?thesis
      by (simp add: f feature_ring_def land_feature_def)
  qed
  have "mset (take 50 ?L) + mset (drop 50 ?L) = mset ?L"
    by (simp flip: mset_append)
  then have split: "mset (map feature_ring ?out) + mset (drop 50 ?L) = mset ?S"
    by (simp only: rings) simp
  have "sorted_wrt (\<lambda>x y. fle (calculateRingArea y) (calculateRingArea x))
          (take 50 ?L @ drop 50 ?L)"
    using sortedL by simp
  then have "\<forall>x \<in> set (take 50 ?L). \<forall>r \<in> set (drop 50 ?L).
               fle (calculateRingArea r) (calculateRingArea x)"
    by (simp only: sorted_wrt_append) blast
  then have "\<forall>x \<in> set (map feature_ring ?out). \<forall>r \<in> set (drop 50 ?L).
               fle (calculateRingArea r) (calculateRingArea x)"
    by (simp only: rings)
  then have top: "\<forall>f \<in> set ?out. \<forall>r \<in> set (drop 50 ?L).
               fle (calculateRingArea r) (calculateRingArea (feature_ring f))"
    by simp
  from split top have ex: "\<exists>rest.
         mset (map feature_ring ?out) + mset rest = mset ?S
         \<and> (\<forall>f \<in> set ?out. \<forall>r \<in> set rest.
               fle (calculateRingArea r) (calculateRingArea (feature_ring f)))"
    by blast
  from len have le: "length ?out \<le> 50" by simp
  from each have each': "\<forall>f \<in> set ?out.
         fgt (calculateRingArea (feature_ring f)) (fl (1 / 10000))
         \<and> (\<forall>a. calculateRingArea (feature_ring f) = Fin a \<longrightarrow> 1 / 10000 < a)
         \<and> feature_ring f \<in> set ?rings
         \<and> coordinates (geometry f) = [feature_ring f]
         \<and> properties f ''area'' = Some (json_number (calculateRingArea (feature_ring f)))"
    by blast
  show ?thesis
    using threshold_value rings [unfolded S] len [unfolded S] le sorted each' ex [unfolded S]
    by (intro conjI) assumption+
qed


lemma extract_segments_squares: "extract_segments (map square_way ks) = map square_ring ks"
  by (induction ks) (simp_all add: extract_segments_def square_way_def square_ring_def)

lemma fold_visit_closed:
  assumes "\<forall>s \<in> set segs. 2 \<le> length s \<and> coordKey (hd s) = coordKey (last s)"
  shows "i \<le> length segs
           \<Longrightarrow> fold (visit_segment segs si ei) [0..<i] ([], {}) = (take i segs, {0..<i})"
proof (induction i)
  case 0
  show ?case by simp
next
  case (Suc i)
  then have i: "i < length segs" by simp
  with assms have "2 \<le> length (segs ! i)" "coordKey (hd (segs ! i)) = coordKey (last (segs ! i))"
    by simp_all
  then have "visit_segment segs si ei i (take i segs, {0..<i})
               = (take i segs @ [segs ! i], insert i {0..<i})"
    by (simp add: visit_segment_def)
  also have "\<dots> = (take (Suc i) segs, {0..<Suc i})"
    using i by (simp add: take_Suc_conv_app_nth atLeastLessThanSuc)
  finally show ?case
    using Suc by simp
qed

lemma mergeSegments_closed:
  assumes "\<forall>s \<in> set segs. 2 \<le> length s \<and> coordKey (hd s) = coordKey (last s)"
  shows "mergeSegments segs = segs"
  using fold_visit_closed [OF assms, of "length segs"]
  by (simp add: mergeSegments_def merge_state_def)

lemma mergeSegments_squares: "mergeSegments (map square_ring ks) = map square_ring ks"
  by (rule mergeSegments_closed) (auto simp: square_ring_def)

lemma area_square:
  assumes "k \<le> 1000"
  shows "calculateRingArea (square_ring k) = Fin (of_nat (k\<^sup>2))"
proof -
  have "k\<^sup>2 \<le> 1000\<^sup>2"
    using assms by (rule power_mono) simp
  then have "2 * length (square_ring k) * k\<^sup>2 \<le> 2 ^ 53"
    by (simp add: square_ring_def)
  moreover have "\<forall>p \<in> set (square_ring k). fst p \<in> \<int> \<and> snd p \<in> \<int>
                     \<and> \<bar>fst p\<bar> \<le> of_nat k \<and> \<bar>snd p\<bar> \<le> of_nat k"
    by (simp add: square_ring_def)
  ultimately have "calculateRingArea (square_ring k) = Fin (\<bar>shoelace_sum (square_ring k)\<bar> / 2)"
    by (intro calculateRingArea_exact)
  moreover have "shoelace_sum (square_ring k) = 2 * of_nat (k\<^sup>2)"
    by (simp add: shoelace_sum_def square_ring_def upt_conv_Cons power2_eq_square)
  ultimately show ?thesis by simp
qed

lemma squares_significant:
  assumes "\<forall>k \<in> set ks. 1 \<le> k \<and> k \<le> 1000"
  shows "significantRings (map square_ring ks) = map square_ring ks"
proof -
  have "fgt (calculateRingArea (square_ring k)) (fl (1 / 10000))" if "k \<in> set ks" for k
  proof -
    from that assms have k: "1 \<le> k" "k \<le> 1000" by auto
    then have "1 \<le> k\<^sup>2" by (simp add: Suc_le_eq)
    then have "(of_nat 1 :: rat) \<le> of_nat (k\<^sup>2)"
      by (simp only: of_nat_le_iff)
    moreover have "7378697629483821 / 73786976294838206464 < (of_nat 1 :: rat)"
      by simp
    ultimately have "7378697629483821 / 73786976294838206464 < (of_nat (k\<^sup>2) :: rat)"
      by (rule less_le_trans [rotated])
    then show ?thesis
      by (simp only: area_square [OF k(2)] threshold_value fgt.simps)
  qed
  then show ?thesis
    by (simp add: significantRings_def)
qed

lemma insert_sorted_last:
  "\<forall>y \<in> set ys. comparator_positive (comparefn x y) \<Longrightarrow> insert_sorted comparefn x ys = ys @ [x]"
  by (induction ys) simp_all

lemma array_sort_ascending:
  "sorted_wrt (\<lambda>x y. comparator_positive (comparefn x y)) xs \<Longrightarrow> array_sort comparefn xs = rev xs"
proof (induction xs)
  case Nil
  show ?case by (simp add: array_sort_def)
next
  case (Cons x xs)
  then have "array_sort comparefn xs = rev xs"
    and "\<forall>y \<in> set (rev xs). comparator_positive (comparefn x y)"
    by simp_all
  then show ?case
    by (simp add: array_sort_def insert_sorted_last)
qed

lemma squares_comparator:
  assumes "i < j" and "j \<le> 1000"
  shows "comparator_positive (area_comparator (square_ring i) (square_ring j))"
proof -
  from assms have "i\<^sup>2 < j\<^sup>2"
    by (simp add: power_strict_mono)
  then have lt: "int (i\<^sup>2) < int (j\<^sup>2)"
    by (simp only: of_nat_less_iff)
  have "j\<^sup>2 \<le> 1000\<^sup>2"
    using assms(2) by (rule power_mono) simp
  then have "int (j\<^sup>2) \<le> int (1000\<^sup>2)"
    by (simp only: of_nat_le_iff)
  then have le: "int (j\<^sup>2) \<le> 1000000"
    by simp
  have nn: "0 \<le> int (i\<^sup>2)"
    by simp
  from lt le nn have "\<bar>int (j\<^sup>2) - int (i\<^sup>2)\<bar> \<le> 1000000"
    by linarith
  also have "(1000000 :: int) \<le> 2 ^ 53"
    by simp
  finally have b: "\<bar>int (j\<^sup>2) - int (i\<^sup>2)\<bar> \<le> 2 ^ 53" .
  have "area_comparator (square_ring i) (square_ring j)
      = fsub (Fin (of_int (int (j\<^sup>2)))) (Fin (of_int (int (i\<^sup>2))))"
    using assms by (simp add: area_comparator_def area_square)
  also have "\<dots> = Fin (of_int (int (j\<^sup>2) - int (i\<^sup>2)))"
    using b by (rule fsub_int)
  finally have "area_comparator (square_ring i) (square_ring j)
      = Fin (of_int (int (j\<^sup>2) - int (i\<^sup>2)))" .
  moreover have "(0 :: rat) < of_int (int (j\<^sup>2) - int (i\<^sup>2))"
    using lt by (simp only: of_int_0_less_iff diff_gt_0_iff_gt)
  ultimately show ?thesis
    by (simp only: comparator_positive.simps)
qed

lemma squares_sorted:
  assumes "n \<le> 1000"
  shows "sortedByArea (map square_ring [Suc 0..<Suc n]) = rev (map square_ring [Suc 0..<Suc n])"
  unfolding sortedByArea_def
proof (rule array_sort_ascending)
  have "sorted_wrt (<) [Suc 0..<Suc n]"
    by (rule sorted_wrt_upt)
  then have "sorted_wrt (\<lambda>i j. comparator_positive
                (area_comparator (square_ring i) (square_ring j))) [Suc 0..<Suc n]"
  proof (rule sorted_wrt_mono_rel [rotated])
    fix i j
    assume "i \<in> set [Suc 0..<Suc n]" "j \<in> set [Suc 0..<Suc n]" "i < j"
    with assms show "comparator_positive (area_comparator (square_ring i) (square_ring j))"
      by (intro squares_comparator) auto
  qed
  then show "sorted_wrt (\<lambda>x y. comparator_positive (area_comparator x y))
               (map square_ring [Suc 0..<Suc n])"
    by (simp only: sorted_wrt_map)
qed

lemma squares_output:
  assumes "n \<le> 1000" and "50 \<le> n"
  shows "map feature_ring (processCoastlineData (map square_way [Suc 0..<Suc n]))
           = map square_ring (rev [Suc (n - 50)..<Suc n])"
proof -
  have sig: "significantRings (map square_ring [Suc 0..<Suc n]) = map square_ring [Suc 0..<Suc n]"
    using assms(1) by (intro squares_significant) auto
  have "map feature_ring (processCoastlineData (map square_way [Suc 0..<Suc n]))
      = take 50 (rev (map square_ring [Suc 0..<Suc n]))"
    by (simp only: processCoastlineData_def Let_def extract_segments_squares
          mergeSegments_squares mainLandFeatures_def sig squares_sorted [OF assms(1)]
          map_ring_land_features)
  also have "\<dots> = rev (drop (length (map square_ring [Suc 0..<Suc n]) - 50)
                          (map square_ring [Suc 0..<Suc n]))"
    by (rule take_rev)
  also have "length (map square_ring [Suc 0..<Suc n]) - 50 = n - 50"
    by simp
  also have "drop (n - 50) (map square_ring [Suc 0..<Suc n])
      = map square_ring (drop (n - 50) [Suc 0..<Suc n])"
    by (rule drop_map)
  also have "drop (n - 50) [Suc 0..<Suc n] = [Suc (n - 50)..<Suc n]"
    by (simp add: drop_upt del: upt_Suc)
  finally show ?thesis
    by (simp only: rev_map)
qed

theorem land_mass_set_witness:
  "length (processCoastlineData (map square_way [1..<101])) = 50
   \<and> map feature_ring (processCoastlineData (map square_way [1..<101]))
       = map square_ring (rev [51..<101])
   \<and> calculateRingArea (square_ring 51) = Fin 2601
   \<and> calculateRingArea (square_ring 100) = Fin 10000"
proof -
  have sig: "filter (\<lambda>r. fgt (calculateRingArea r) (fl (1 / 10000)))
               (mergeSegments (extract_segments (map square_way [Suc 0..<Suc 100])))
             = map square_ring [Suc 0..<Suc 100]"
    using squares_significant [of "[Suc 0..<Suc 100]"]
    by (simp only: extract_segments_squares mergeSegments_squares significantRings_def Let_def)
       auto
  have "length (processCoastlineData (map square_way [Suc 0..<Suc 100]))
          = min 50 (length (map square_ring [Suc 0..<Suc 100]))"
    using land_mass_set [of "map square_way [Suc 0..<Suc 100]"] by (simp only: sig)
  then have len: "length (processCoastlineData (map square_way [Suc 0..<Suc 100])) = 50"
    by (simp del: upt_Suc)
  have rings: "map feature_ring (processCoastlineData (map square_way [Suc 0..<Suc 100]))
       = map square_ring (rev [Suc (100 - 50)..<Suc 100])"
    by (rule squares_output) simp_all
  have "calculateRingArea (square_ring 51) = Fin 2601"
    "calculateRingArea (square_ring 100) = Fin 10000"
    by (simp_all add: area_square)
  with len rings show ?thesis
    by (simp del: upt_Suc)
qed

end
